theory Spec2Isabelle
  imports Main "HOL-Library.Word" "HOL-Library.AList" "HOL-Library.Multiset"
begin

section \<open>Header verification pipeline (consensus/process/process.go)\<close>

text \<open>
  A shallow embedding of the dispatcher of \<^verbatim>\<open>consensus/process/process.go\<close>: the event
  loop of \<^verbatim>\<open>NewConsensusProcess\<close>, the ancestor resolution functions, the pending
  registry, the expiry sweep and the loop that removes finished requests. Every handler
  is a function from the state to the state, and a send on an outgoing channel appends
  to a list of the state. The two goroutines are interleaved at the grain of one
  message: a run is a list of the messages that the event loop and the cleanup loop
  take, in the order in which they are handled. \<^verbatim>\<open>CleanupCh\<close> is a queue of the state:
  \<^verbatim>\<open>verifyByRequest\<close> puts a finished request on it, or removes the request in place
  when the channel does not take it, and the cleanup loop removes a queued request when
  it takes it.
\<close>

subsection \<open>Data\<close>

type_synonym u64 = "64 word"

text \<open>\<^verbatim>\<open>common.Hash\<close> is a 32 byte array; \<^verbatim>\<open>common.Hash{}\<close> is the zero value.\<close>

type_synonym hash = "256 word"

text \<open>
  \<^verbatim>\<open>types.Header\<close> is declared outside this package. The code reads three things of
  a header: \<^verbatim>\<open>Number.Uint64()\<close> (and \<^verbatim>\<open>Number.Int64()\<close>, the same 64 bits read as signed),
  \<^verbatim>\<open>ParentHash\<close> and \<^verbatim>\<open>Hash()\<close>; these are the fields of the record.
\<close>

record Header =
  Number :: u64
  ParentHash :: hash
  Hash :: hash

text \<open>
  The errors of the package. \<open>errTimeout\<close> is the value \<^verbatim>\<open>errors.New("timeout")\<close> of
  \<^verbatim>\<open>cleanup\<close>; \<open>External\<close> stands for an error of the rule engine or of the header
  fetcher.
\<close>

datatype error = errEmptyHeader | errNothingToAsk | errNotAllParents | errTimeout | External nat

text \<open>The run-time panics of Go that the code can reach.\<close>

datatype panic = NilDereference | IndexOutOfRange | SliceBounds | MakeSliceCap

text \<open>\<^verbatim>\<open>consensus.VerifyHeaderResponse{ID, Hash, Err}\<close>.\<close>

record VerifyHeaderResponse =
  respID :: u64
  respHash :: hash
  respErr :: "error option"

text \<open>\<^verbatim>\<open>consensus.HeadersRequest{ID, HighestHash, HighestBlockNumber, Number}\<close>.\<close>

record HeadersRequest =
  hrID :: u64
  HighestHash :: hash
  HighestBlockNumber :: u64
  hrNumber :: u64

text \<open>
  \<^verbatim>\<open>consensus.VerifyRequest\<close>, in the order of the literal of \<^verbatim>\<open>toVerifyRequest\<close>.
  \<open>ParentsExpected\<close> is a Go \<^verbatim>\<open>int\<close> (64 bits, read with \<open>sint\<close>); a point in time is
  a natural number.
\<close>

record VerifyRequest =
  ID :: u64
  Header :: Header
  Seal :: bool
  Deadline :: nat
  KnownParents :: "Header list"
  ParentsExpected :: u64
  From :: u64
  To :: u64

text \<open>
  The maps of Go are association lists: \<^verbatim>\<open>ProcessingRequests\<close> maps a request id to the
  map from block number to pending request. A \<^verbatim>\<open>range\<close> over a map visits the keys in
  an unspecified order; the model visits them in the order of the list, and a theorem
  stated for every list covers every order.
\<close>

type_synonym blocks = "(u64 \<times> VerifyRequest) list"

text \<open>\<^verbatim>\<open>consensus.FinishedRequest{ReqID, BlockNumber}\<close>, the message of \<^verbatim>\<open>CleanupCh\<close>.\<close>

record FinishedRequest =
  ReqID :: u64
  BlockNumber :: u64

text \<open>
  The state of the process. \<open>CleanupCh\<close> holds the finished requests that were sent and
  that the cleanup loop has not removed yet.

  Modelled from the spec: the channel is made by \<^verbatim>\<open>consensus.NewAPI\<close>, which is not among
  the sources. The spec calls it a removal queue with a non-blocking send and a
  synchronous fallback when the queue is full. \<open>CleanupChCap\<close> is the number of
  finished requests that can be on their way at once (in the buffer of the channel or
  in the hands of the cleanup loop): a send is taken while fewer are on their way.
\<close>

record State =
  Cache :: "Header list"
  ProcessingRequests :: "(u64 \<times> blocks) list"
  VerifyHeaderResponses :: "VerifyHeaderResponse list"
  HeadersRequests :: "HeadersRequest list"
  Logged :: "error list"
  CleanupCh :: "FinishedRequest list"
  CleanupChCap :: nat

text \<open>
  The rule engine \<^verbatim>\<open>consensus.Verifier\<close>: \<open>NeededForVerification\<close> returns a Go
  \<^verbatim>\<open>int\<close>; \<open>Verify\<close> gets the chain (here the cache), the header, its parents and the
  seal flag (the uncle flag is always false).
\<close>

record Verifier =
  NeededForVerification :: "Header \<Rightarrow> u64"
  Verify :: "Header list \<Rightarrow> Header \<Rightarrow> Header list \<Rightarrow> bool \<Rightarrow> error option"

subsection \<open>The cache\<close>

text \<open>
  Modelled from the spec: the cache collaborator \<^verbatim>\<open>consensus.API\<close> is not among the
  sources. Its contract is \<^verbatim>\<open>lookup(hash, number) \<rightarrow> Header?\<close> and \<^verbatim>\<open>insert(header)\<close>; the
  cache only grows.
\<close>

definition GetCachedHeader :: "Header list \<Rightarrow> hash \<Rightarrow> u64 \<Rightarrow> Header option" where
  "GetCachedHeader c h n = find (\<lambda>x. Hash x = h \<and> Number x = n) c"

definition CacheHeader :: "Header \<Rightarrow> State \<Rightarrow> State" where
  "CacheHeader h st = st\<lparr>Cache := h # Cache st\<rparr>"

subsection \<open>Results and the registry\<close>

definition sendResponse :: "u64 \<Rightarrow> hash \<Rightarrow> error option \<Rightarrow> State \<Rightarrow> State" where
  "sendResponse i h e st =
     st\<lparr>VerifyHeaderResponses :=
          VerifyHeaderResponses st @ [\<lparr>respID = i, respHash = h, respErr = e\<rparr>]\<rparr>"

definition cleanupRequest :: "u64 \<Rightarrow> u64 \<Rightarrow> State \<Rightarrow> State" where
  "cleanupRequest reqID number st =
     (case map_of (ProcessingRequests st) reqID of
        None \<Rightarrow> st
      | Some reqBlocks \<Rightarrow>
          (let reqBlocks' = AList.delete number reqBlocks in
           if reqBlocks' = []
           then st\<lparr>ProcessingRequests := AList.delete reqID (ProcessingRequests st)\<rparr>
           else st\<lparr>ProcessingRequests := AList.update reqID reqBlocks' (ProcessingRequests st)\<rparr>))"

text \<open>
  \<^verbatim>\<open>verifyByRequest\<close>. The \<^verbatim>\<open>select\<close> at its end sends the finished request on
  \<^verbatim>\<open>CleanupCh\<close> when the channel takes it, and the registry is left as it is; the
  \<^verbatim>\<open>default\<close> branch removes the request in place.
\<close>

definition verifyByRequest ::
  "Verifier \<Rightarrow> u64 \<Rightarrow> Header \<Rightarrow> bool \<Rightarrow> u64 \<Rightarrow> Header list \<Rightarrow> State \<Rightarrow> error option \<times> State" where
  "verifyByRequest srv reqID header seal parentsExpected knownParents st =
     (if int (length knownParents) \<noteq> sint parentsExpected then (Some errNotAllParents, st)
      else
        (let err = Verify srv (Cache st) header knownParents seal;
             st1 = (if err = None then CacheHeader header st else st);
             st2 = sendResponse reqID (Hash header) err st1;
             finishedRequest = \<lparr>ReqID = reqID, BlockNumber = Number header\<rparr>
         in (None,
             if length (CleanupCh st2) < CleanupChCap st2
             then st2\<lparr>CleanupCh := CleanupCh st2 @ [finishedRequest]\<rparr>
             else cleanupRequest (ReqID finishedRequest) (BlockNumber finishedRequest) st2)))"

text \<open>
  The cleanup loop: it takes the oldest finished request of \<^verbatim>\<open>CleanupCh\<close> and removes
  it from the registry. With nothing on the channel it waits, and the state stays.
\<close>

definition onFinishedRequest :: "State \<Rightarrow> State" where
  "onFinishedRequest st =
     (case CleanupCh st of
        [] \<Rightarrow> st
      | req # rest \<Rightarrow> cleanupRequest (ReqID req) (BlockNumber req) (st\<lparr>CleanupCh := rest\<rparr>))"

definition toVerifyRequest ::
  "u64 \<Rightarrow> Header \<Rightarrow> bool \<Rightarrow> nat \<Rightarrow> Header list \<Rightarrow> u64 \<Rightarrow> VerifyRequest" where
  "toVerifyRequest reqID header seal deadline knownParents parentsToValidate =
     \<lparr>ID = reqID, Header = header, Seal = seal, Deadline = deadline,
      KnownParents = knownParents, ParentsExpected = parentsToValidate,
      From = Number header - parentsToValidate,
      To = Number header - of_nat (length knownParents) - 1\<rparr>"

definition addVerifyHeaderRequest ::
  "u64 \<Rightarrow> Header \<Rightarrow> bool \<Rightarrow> nat \<Rightarrow> Header list \<Rightarrow> u64 \<Rightarrow> State \<Rightarrow> State" where
  "addVerifyHeaderRequest reqID header seal deadline knownParentsSlice parentsToValidate st =
     (let request = toVerifyRequest reqID header seal deadline knownParentsSlice parentsToValidate;
          blocks = (case map_of (ProcessingRequests st) reqID of None \<Rightarrow> [] | Some b \<Rightarrow> b)
      in st\<lparr>ProcessingRequests :=
               AList.update reqID (AList.update (Number header) request blocks)
                 (ProcessingRequests st)\<rparr>)"

subsection \<open>The expiry sweep\<close>

text \<open>
  \<^verbatim>\<open>cleanup\<close>: the inner loop runs over the blocks of one request id, and deletes the
  request id from the registry at every entry whose deadline is before \<open>now\<close>; the
  loop goes on over the blocks it holds.
\<close>

fun cleanupBlocks :: "nat \<Rightarrow> u64 \<Rightarrow> blocks \<Rightarrow> State \<Rightarrow> State" where
  "cleanupBlocks now reqID [] st = st"
| "cleanupBlocks now reqID ((n, req) # rest) st =
     (if Deadline req < now
      then cleanupBlocks now reqID rest
             ((sendResponse reqID (Hash (Header req)) (Some errTimeout) st)
                \<lparr>ProcessingRequests :=
                   AList.delete reqID
                     (ProcessingRequests (sendResponse reqID (Hash (Header req)) (Some errTimeout) st))\<rparr>)
      else cleanupBlocks now reqID rest st)"

fun cleanupLoop :: "nat \<Rightarrow> (u64 \<times> blocks) list \<Rightarrow> State \<Rightarrow> State" where
  "cleanupLoop now [] st = st"
| "cleanupLoop now ((reqID, reqBlocks) # rest) st =
     cleanupLoop now rest (cleanupBlocks now reqID reqBlocks st)"

definition cleanup :: "nat \<Rightarrow> State \<Rightarrow> State" where
  "cleanup now st = cleanupLoop now (ProcessingRequests st) st"

subsection \<open>Merging the fetch requests of a batch\<close>

fun sumLoop :: "u64 \<Rightarrow> u64 \<Rightarrow> HeadersRequest list \<Rightarrow> u64 \<times> hash \<times> u64 \<Rightarrow> u64 \<times> hash \<times> u64" where
  "sumLoop reqID from [] acc = acc"
| "sumLoop reqID from (req # reqs) (maxBlockNumber, maxBlockHash, minBlockToGet) =
     (if hrID req \<noteq> reqID then sumLoop reqID from reqs (maxBlockNumber, maxBlockHash, minBlockToGet)
      else if hrNumber req = 0 then sumLoop reqID from reqs (maxBlockNumber, maxBlockHash, minBlockToGet)
      else
        (let (maxBlockNumber', maxBlockHash') =
               (if HighestBlockNumber req > maxBlockNumber \<and> HighestBlockNumber req < from
                then (HighestBlockNumber req, HighestHash req)
                else (maxBlockNumber, maxBlockHash));
             minBlockToGet' =
               (if HighestBlockNumber req - hrNumber req + 1 < minBlockToGet
                then HighestBlockNumber req - hrNumber req + 1
                else minBlockToGet)
         in sumLoop reqID from reqs (maxBlockNumber', maxBlockHash', minBlockToGet')))"

definition sumHeadersRequestsInRange ::
  "u64 \<Rightarrow> u64 \<Rightarrow> HeadersRequest list \<Rightarrow> error + HeadersRequest" where
  "sumHeadersRequestsInRange reqID from reqs =
     (case reqs of
        [] \<Rightarrow> Inl errNothingToAsk
      | r0 # _ \<Rightarrow>
          (let (maxBlockNumber, maxBlockHash, minBlockToGet) =
                 sumLoop reqID from reqs
                   (HighestBlockNumber r0, HighestHash r0,
                    HighestBlockNumber r0 - hrNumber r0 + 1)
           in Inr \<lparr>hrID = reqID, HighestHash = maxBlockHash,
                    HighestBlockNumber = maxBlockNumber,
                    hrNumber = maxBlockNumber - minBlockToGet + 1\<rparr>))"

subsection \<open>Folding ancestors into a pending request\<close>

text \<open>
  The dedup index \<^verbatim>\<open>knownByRequests\<close>: request id to parent hash to the set of block
  numbers. \<^verbatim>\<open>appendAncestors\<close> changes the request behind its pointer and the index; the
  model returns both.
\<close>

type_synonym ancestorsMap = "hash \<rightharpoonup> u64 set"

fun appendLoop ::
  "u64 \<Rightarrow> u64 \<Rightarrow> u64 \<Rightarrow> Header list \<Rightarrow> ancestorsMap \<times> Header list \<Rightarrow> ancestorsMap \<times> Header list" where
  "appendLoop blockNumber from to [] acc = acc"
| "appendLoop blockNumber from to (parent # rest) (ancestorsMap, known) =
     (if Number parent \<ge> from \<and> Number parent \<le> to
      then (case ancestorsMap (Hash parent) of
              None \<Rightarrow>
                appendLoop blockNumber from to rest
                  (ancestorsMap(Hash parent \<mapsto> {blockNumber}), known @ [parent])
            | Some parentMap \<Rightarrow>
                (if blockNumber \<in> parentMap
                 then appendLoop blockNumber from to rest (ancestorsMap, known)
                 else appendLoop blockNumber from to rest
                        (ancestorsMap(Hash parent \<mapsto> {blockNumber}), known @ [parent])))
      else appendLoop blockNumber from to rest (ancestorsMap, known))"

definition appendAncestors ::
  "VerifyRequest \<Rightarrow> Header list \<Rightarrow> (u64 \<rightharpoonup> ancestorsMap) \<Rightarrow> VerifyRequest \<times> (u64 \<rightharpoonup> ancestorsMap)" where
  "appendAncestors request ancestors knownByRequests =
     (let blockNumber = Number (Header request);
          ancestorsMap0 =
            (case knownByRequests (ID request) of
               Some m \<Rightarrow> m
             | None \<Rightarrow> fold (\<lambda>p m. m(Hash p \<mapsto> {blockNumber})) (KnownParents request) Map.empty);
          (ancestorsMap, known) =
            appendLoop blockNumber (From request) (To request) ancestors
              (ancestorsMap0, KnownParents request)
      in (request\<lparr>KnownParents := known\<rparr>, knownByRequests(ID request \<mapsto> ancestorsMap)))"

subsection \<open>Arrival of fetched ancestors\<close>

text \<open>
  The body of the loop over the sorted block numbers of \<^verbatim>\<open>VerifyRequestsCommonAncestor\<close>.
  \<^verbatim>\<open>reqHeaders\<close> is the inner map of the registry itself, so the request read at \<open>num\<close>
  is the one the registry holds now, and a missing one is a nil pointer, which
  \<^verbatim>\<open>appendAncestors\<close> dereferences. The fold writes through the pointer: the registry
  holds the changed request.
\<close>

definition commonAncestorStep ::
  "Verifier \<Rightarrow> u64 \<Rightarrow> u64 \<Rightarrow> Header list \<times> (u64 \<rightharpoonup> ancestorsMap) \<times> State \<Rightarrow>
     panic + Header list \<times> (u64 \<rightharpoonup> ancestorsMap) \<times> State" where
  "commonAncestorStep srv reqID num s =
     (case s of (headers, knownByRequests, st) \<Rightarrow>
      (case map_of (ProcessingRequests st) reqID of
         None \<Rightarrow> Inl NilDereference
       | Some reqHeaders \<Rightarrow>
           (case map_of reqHeaders num of
              None \<Rightarrow> Inl NilDereference
            | Some req0 \<Rightarrow>
                (let (req, knownByRequests') = appendAncestors req0 headers knownByRequests;
                     st1 = st\<lparr>ProcessingRequests :=
                                AList.update reqID (AList.update num req reqHeaders)
                                  (ProcessingRequests st)\<rparr>;
                     (err, st2) = verifyByRequest srv (ID req) (Header req) (Seal req)
                                    (ParentsExpected req) (KnownParents req) st1
                 in Inr (if err = None then headers @ [Header req] else headers,
                         knownByRequests', st2)))))"

fun commonAncestorLoop ::
  "Verifier \<Rightarrow> u64 \<Rightarrow> u64 list \<Rightarrow> Header list \<times> (u64 \<rightharpoonup> ancestorsMap) \<times> State \<Rightarrow>
     panic + Header list \<times> (u64 \<rightharpoonup> ancestorsMap) \<times> State" where
  "commonAncestorLoop srv reqID [] s = Inr s"
| "commonAncestorLoop srv reqID (num # nums) s =
     (case commonAncestorStep srv reqID num s of
        Inl p \<Rightarrow> Inl p
      | Inr s' \<Rightarrow> commonAncestorLoop srv reqID nums s')"

definition VerifyRequestsCommonAncestor ::
  "Verifier \<Rightarrow> u64 \<Rightarrow> Header list \<Rightarrow> State \<Rightarrow> panic + State" where
  "VerifyRequestsCommonAncestor srv reqID headers st =
     (if headers = [] then Inr st
      else
        (case map_of (ProcessingRequests st) reqID of
           None \<Rightarrow> Inr st
         | Some reqHeaders \<Rightarrow>
             (let nums = sort (map fst reqHeaders);
                  st1 = fold CacheHeader headers st
              in (case commonAncestorLoop srv reqID nums (headers, Map.empty, st1) of
                    Inl p \<Rightarrow> Inl p
                  | Inr (_, _, st2) \<Rightarrow> Inr st2))))"

text \<open>
  \<^verbatim>\<open>consensus.HeaderResponse\<close>, and the branch of the event loop that receives it. The
  headers of a response are taken to be present (no nil pointer among them).
\<close>

record HeaderResponse =
  hID :: u64
  hHash :: hash
  hHeaders :: "Header list"
  hErr :: "error option"

definition onHeaderResponse :: "Verifier \<Rightarrow> HeaderResponse \<Rightarrow> State \<Rightarrow> panic + State" where
  "onHeaderResponse srv parentResp st =
     (case hErr parentResp of
        Some e \<Rightarrow>
          Inr ((sendResponse (hID parentResp) (hHash parentResp) (Some e) st)
                 \<lparr>ProcessingRequests := AList.delete (hID parentResp) (ProcessingRequests st)\<rparr>)
      | None \<Rightarrow> VerifyRequestsCommonAncestor srv (hID parentResp) (hHeaders parentResp) st)"

subsection \<open>Ancestor resolution\<close>

text \<open>
  The loop of \<^verbatim>\<open>requestHeadersNotFromRange\<close> walks the cache downwards from
  \<open>highestBlock\<close>. Its counter is unsigned: with \<open>minHeader = 0\<close> the test
  \<^verbatim>\<open>parentBlockNum >= minHeader\<close> never fails and only a miss of the cache ends the loop,
  so the walk is a partial function and \<open>None\<close> is a walk that does not end.
\<close>

partial_function (option) walkCache ::
  "Header list \<Rightarrow> u64 \<Rightarrow> u64 \<Rightarrow> hash \<Rightarrow> Header list \<Rightarrow> hash \<Rightarrow> u64 \<Rightarrow>
     (Header list \<times> hash \<times> u64) option" where
  "walkCache cache minHeader parentBlockNum highestKnown known highestParentHash highestParentNumber =
     (if parentBlockNum \<ge> minHeader
      then (case GetCachedHeader cache highestKnown parentBlockNum of
              None \<Rightarrow> Some (known, highestParentHash, highestParentNumber)
            | Some parentBlock \<Rightarrow>
                walkCache cache minHeader (parentBlockNum - 1) (ParentHash parentBlock)
                  (known @ [parentBlock])
                  (if highestParentNumber < Number parentBlock then Hash parentBlock
                   else highestParentHash)
                  (if highestParentNumber < Number parentBlock then Number parentBlock
                   else highestParentNumber))
      else Some (known, highestParentHash, highestParentNumber))"

declare walkCache.simps [code]

text \<open>
  Before the walk, \<^verbatim>\<open>make([]*types.Header, 0, highestBlock-minHeader)\<close> allocates the
  slice \<^verbatim>\<open>known\<close> with the capacity given. \<^verbatim>\<open>makeslice\<close> of the Go runtime panics
  (\<^verbatim>\<open>makeslice: cap out of range\<close>) when the capacity times the size of an element is
  above \<^verbatim>\<open>maxAlloc\<close>: on a 64 bit platform \<open>2 ^ 48\<close> bytes, with pointers of 8 bytes,
  so that the highest capacity without this panic is \<open>2 ^ 45\<close>. (Below that bound an
  allocation that the machine cannot serve ends the process with a fatal error of the
  runtime; the model has no memory bound and leaves it out.)
\<close>

definition maxSliceCap :: u64 where
  "maxSliceCap = 35184372088832"

definition requestHeadersNotFromRange ::
  "Header list \<Rightarrow> u64 \<Rightarrow> u64 \<Rightarrow> hash \<Rightarrow> u64 \<Rightarrow>
     (panic + Header list \<times> HeadersRequest) option" where
  "requestHeadersNotFromRange cache reqID highestBlock highestKnown parentsToGet =
     (let minHeader = (if highestBlock > parentsToGet - 1 then highestBlock - parentsToGet + 1 else 0)
      in if highestBlock - minHeader > maxSliceCap then Some (Inl MakeSliceCap)
         else
           (case walkCache cache minHeader highestBlock highestKnown [] highestKnown highestBlock of
              None \<Rightarrow> None
            | Some (known, highestParentHash, highestParentNumber) \<Rightarrow>
                Some (Inr (known,
                      \<lparr>hrID = reqID, HighestHash = highestParentHash,
                       HighestBlockNumber = highestParentNumber,
                       hrNumber = parentsToGet - of_nat (length known)\<rparr>))))"

fun indexOfNumber :: "u64 \<Rightarrow> Header list \<Rightarrow> nat \<Rightarrow> nat option" where
  "indexOfNumber n [] i = None"
| "indexOfNumber n (h # hs) i = (if Number h = n then Some i else indexOfNumber n hs (Suc i))"

text \<open>
  \<^verbatim>\<open>checkHeadersFromRange\<close>. \<^verbatim>\<open>idx-int(parentsToGet)\<close> is a Go \<^verbatim>\<open>int\<close>: the 64 bit
  difference read as signed. The slice expression panics when its lower bound is above
  \<open>idx\<close>.
\<close>

definition checkHeadersFromRange ::
  "Header \<Rightarrow> Header list \<Rightarrow> u64 \<Rightarrow> u64 \<Rightarrow> panic + Header list" where
  "checkHeadersFromRange highestHeader requestedHeaders parentsToGet0 parentsToValidate =
     (let parentsToGet = parentsToValidate - parentsToGet0 in
      if parentsToGet = 0 then Inr []
      else
        (case indexOfNumber (Number highestHeader) requestedHeaders 0 of
           None \<Rightarrow> Inr []
         | Some idx \<Rightarrow>
             (let lo = (of_nat idx :: u64) - parentsToGet in
              if lo <s 0 then Inr []
              else if unat lo > idx then Inl SliceBounds
              else Inr (take (idx - unat lo) (drop (unat lo) requestedHeaders)))))"

text \<open>
  The two decisions of \<^verbatim>\<open>requestParentHeaders\<close> before it reads the cache: how many
  parents to ask for (the variable \<^verbatim>\<open>parentsToAsk\<close>, a Go \<^verbatim>\<open>int\<close>), and from which block
  and hash the walk starts (\<^verbatim>\<open>headerNumber\<close>, \<^verbatim>\<open>headerParentHash\<close>).
\<close>

definition parentsToAsk :: "u64 \<Rightarrow> u64 \<Rightarrow> u64 \<Rightarrow> u64 \<Rightarrow> u64" where
  "parentsToAsk parentsToValidate number from to =
     (if number > from \<and> number \<le> to
      then (if number \<ge> from + parentsToValidate then 0
            else from - (number - parentsToValidate))
      else parentsToValidate)"

definition fetchOrigin :: "u64 \<Rightarrow> Header \<Rightarrow> Header list \<Rightarrow> u64 \<times> hash" where
  "fetchOrigin toAsk header reqHeaders =
     (if 0 <s toAsk then (Number (hd reqHeaders) - 1, ParentHash (hd reqHeaders))
      else (Number header, ParentHash header))"

definition requestParentHeaders ::
  "Verifier \<Rightarrow> Header list \<Rightarrow> u64 \<Rightarrow> Header \<Rightarrow> Header list \<Rightarrow>
     (panic + Header list \<times> u64 \<times> HeadersRequest option) option" where
  "requestParentHeaders srv cache reqID header reqHeaders =
     (let parentsToValidate = NeededForVerification srv header in
      if parentsToValidate = 0 then Some (Inr ([], 0, None))
      else if reqHeaders = [] then Some (Inl IndexOutOfRange)
      else
        (let from = Number (hd reqHeaders);
             to = Number (last reqHeaders);
             toAsk = parentsToAsk parentsToValidate (Number header) from to;
             (headerNumber, headerParentHash) = fetchOrigin toAsk header reqHeaders
         in (case requestHeadersNotFromRange cache reqID headerNumber headerParentHash toAsk of
               None \<Rightarrow> None
             | Some (Inl p) \<Rightarrow> Some (Inl p)
             | Some (Inr (knownParents, ancestorsReq)) \<Rightarrow>
                 (case checkHeadersFromRange header reqHeaders toAsk parentsToValidate of
                    Inl p \<Rightarrow> Some (Inl p)
                  | Inr knownParentsFromRange \<Rightarrow>
                      Some (Inr (knownParents @ knownParentsFromRange, parentsToValidate,
                                 Some ancestorsReq))))))"

subsection \<open>Arrival of a batch\<close>

text \<open>
  \<^verbatim>\<open>consensus.VerifyHeaderRequest\<close>: a header of the batch is a pointer and may be nil.
\<close>

record VerifyHeaderRequest =
  vID :: u64
  vHeaders :: "Header option list"
  vSeal :: "bool list"
  vDeadline :: "nat option"

definition ttl :: nat where
  "ttl = 60000000000"

text \<open>
  The loop over the sorted headers. The result says whether the loop ran to its end
  (\<open>True\<close>) or left by \<^verbatim>\<open>continue eventLoop\<close> at a nil header (\<open>False\<close>), with the state
  and the requests gathered. \<open>reqHeaders\<close> is the sorted batch, which
  \<^verbatim>\<open>requestParentHeaders\<close> reads.
\<close>

fun verifyHeaders ::
  "Verifier \<Rightarrow> u64 \<Rightarrow> nat \<Rightarrow> Header list \<Rightarrow> (Header option \<times> bool) list \<Rightarrow>
     HeadersRequest list \<Rightarrow> State \<Rightarrow> (panic + bool \<times> HeadersRequest list \<times> State) option" where
  "verifyHeaders srv reqID deadline reqHeaders [] ancestorsReqs st = Some (Inr (True, ancestorsReqs, st))"
| "verifyHeaders srv reqID deadline reqHeaders ((None, seal) # rest) ancestorsReqs st =
     Some (Inr (False, ancestorsReqs, sendResponse reqID 0 (Some errEmptyHeader) st))"
| "verifyHeaders srv reqID deadline reqHeaders ((Some header, seal) # rest) ancestorsReqs st =
     (case GetCachedHeader (Cache st) (Hash header) (Number header) of
        Some h \<Rightarrow>
          verifyHeaders srv reqID deadline reqHeaders rest ancestorsReqs
            (sendResponse reqID (Hash header) None st)
      | None \<Rightarrow>
          (case requestParentHeaders srv (Cache st) reqID header reqHeaders of
             None \<Rightarrow> None
           | Some (Inl p) \<Rightarrow> Some (Inl p)
           | Some (Inr (knownParentsSlice, parentsToValidate, ancestorsReq)) \<Rightarrow>
               (let ancestorsReqs' =
                      (case ancestorsReq of None \<Rightarrow> ancestorsReqs | Some r \<Rightarrow> ancestorsReqs @ [r]);
                    (err, st1) = verifyByRequest srv reqID header seal parentsToValidate
                                   knownParentsSlice st;
                    st2 = (if err = Some errNotAllParents
                           then addVerifyHeaderRequest reqID header seal deadline
                                  knownParentsSlice parentsToValidate st1
                           else st1)
                in verifyHeaders srv reqID deadline reqHeaders rest ancestorsReqs' st2)))"

text \<open>
  The branch of the event loop that receives a batch, at time \<open>now\<close>. Building
  \<^verbatim>\<open>reqHeaders\<close> reads \<^verbatim>\<open>req.Seal[i]\<close> for every header. \<^verbatim>\<open>sort.Slice\<close> calls the
  comparison on every element of a slice of two or more, and the comparison reads
  \<^verbatim>\<open>header.Number\<close> of both its arguments: a nil header among two or more is a nil
  dereference. The sort is by block number; among equal numbers the model keeps the
  order of the batch. After the sort the headers are all present, or the batch is the
  single nil header, which the loop finds before it reads \<open>reqHeaders\<close>.
\<close>

definition headerNumber :: "Header option \<times> bool \<Rightarrow> u64" where
  "headerNumber p = (case fst p of None \<Rightarrow> 0 | Some h \<Rightarrow> Number h)"

definition onVerifyHeaderRequest ::
  "Verifier \<Rightarrow> nat \<Rightarrow> VerifyHeaderRequest \<Rightarrow> State \<Rightarrow> (panic + State) option" where
  "onVerifyHeaderRequest srv now req st =
     (if vHeaders req = [] then Some (Inr (sendResponse (vID req) 0 (Some errEmptyHeader) st))
      else
        (let deadline = (case vDeadline req of None \<Rightarrow> now + ttl | Some t \<Rightarrow> t) in
         if length (vSeal req) < length (vHeaders req) then Some (Inl IndexOutOfRange)
         else if 2 \<le> length (vHeaders req) \<and> None \<in> set (vHeaders req) then Some (Inl NilDereference)
         else
           (let sorted = sort_key headerNumber (zip (vHeaders req) (vSeal req));
                reqHeaders = List.map_filter fst sorted
            in (case verifyHeaders srv (vID req) deadline reqHeaders sorted [] st of
                  None \<Rightarrow> None
                | Some (Inl p) \<Rightarrow> Some (Inl p)
                | Some (Inr (False, _, st1)) \<Rightarrow> Some (Inr st1)
                | Some (Inr (True, ancestorsReqs, st1)) \<Rightarrow>
                    (case sumHeadersRequestsInRange (vID req) (Number (hd reqHeaders)) ancestorsReqs of
                       Inl err \<Rightarrow> Some (Inr (st1\<lparr>Logged := Logged st1 @ [err]\<rparr>))
                     | Inr ancestorsReq \<Rightarrow>
                         Some (Inr (st1\<lparr>HeadersRequests := HeadersRequests st1 @ [ancestorsReq]\<rparr>)))))))"

subsection \<open>The event loop\<close>

text \<open>
  The \<^verbatim>\<open>select\<close> of the event loop takes one message at a time: a batch from
  \<^verbatim>\<open>VerifyHeaderRequests\<close>, a fetch result from \<^verbatim>\<open>HeaderResponses\<close>, or a tick of
  \<^verbatim>\<open>CleanupTicker\<close>; the \<^verbatim>\<open>select\<close> of the cleanup loop takes a finished request from
  \<^verbatim>\<open>CleanupCh\<close>. A run is the list of the messages taken by the two loops, each with the
  time at which it is handled. A panic ends the run.
\<close>

datatype event =
  VerifyHeaderRequests VerifyHeaderRequest
| HeaderResponses HeaderResponse
| CleanupTicker
| FinishedRequests

fun eventLoop :: "Verifier \<Rightarrow> (nat \<times> event) list \<Rightarrow> State \<Rightarrow> (panic + State) option" where
  "eventLoop srv [] st = Some (Inr st)"
| "eventLoop srv ((now, VerifyHeaderRequests req) # evs) st =
     (case onVerifyHeaderRequest srv now req st of
        None \<Rightarrow> None
      | Some (Inl p) \<Rightarrow> Some (Inl p)
      | Some (Inr st') \<Rightarrow> eventLoop srv evs st')"
| "eventLoop srv ((now, HeaderResponses parentResp) # evs) st =
     (case onHeaderResponse srv parentResp st of
        Inl p \<Rightarrow> Some (Inl p)
      | Inr st' \<Rightarrow> eventLoop srv evs st')"
| "eventLoop srv ((now, CleanupTicker) # evs) st = eventLoop srv evs (cleanup now st)"
| "eventLoop srv ((now, FinishedRequests) # evs) st = eventLoop srv evs (onFinishedRequest st)"

subsection \<open>What the sweep is expected to send\<close>

text \<open>
  The timeout result of a pending request, and the results of a sweep over a registry:
  one timeout for every entry whose own deadline is before \<open>now\<close>, in the order of the
  registry.
\<close>

definition expired :: "nat \<Rightarrow> VerifyRequest \<Rightarrow> bool" where
  "expired now req = (Deadline req < now)"

definition timeoutResponse :: "u64 \<Rightarrow> VerifyRequest \<Rightarrow> VerifyHeaderResponse" where
  "timeoutResponse reqID req =
     \<lparr>respID = reqID, respHash = Hash (Header req), respErr = Some errTimeout\<rparr>"

definition expiredResponses :: "nat \<Rightarrow> u64 \<Rightarrow> blocks \<Rightarrow> VerifyHeaderResponse list" where
  "expiredResponses now reqID reqBlocks =
     map (timeoutResponse reqID) (filter (expired now) (map snd reqBlocks))"

definition sweepResponses :: "nat \<Rightarrow> (u64 \<times> blocks) list \<Rightarrow> VerifyHeaderResponse list" where
  "sweepResponses now registry =
     concat (map (\<lambda>(reqID, reqBlocks). expiredResponses now reqID reqBlocks) registry)"

definition hasExpired :: "nat \<Rightarrow> blocks \<Rightarrow> bool" where
  "hasExpired now reqBlocks = (filter (expired now) (map snd reqBlocks) \<noteq> [])"

definition expiredIDs :: "nat \<Rightarrow> (u64 \<times> blocks) list \<Rightarrow> u64 list" where
  "expiredIDs now registry =
     map fst (filter (\<lambda>(reqID, reqBlocks). hasExpired now reqBlocks) registry)"

text \<open>The pending request of a request id and block number, if the registry holds one.\<close>

definition pending :: "State \<Rightarrow> u64 \<Rightarrow> u64 \<Rightarrow> VerifyRequest option" where
  "pending st reqID number =
     (case map_of (ProcessingRequests st) reqID of
        None \<Rightarrow> None
      | Some reqBlocks \<Rightarrow> map_of reqBlocks number)"

text \<open>
  A registry as the code builds it: the keys of a map are distinct, and
  \<^verbatim>\<open>addVerifyHeaderRequest\<close> files a request under its own id and the block number of its
  header.
\<close>

definition wfBlocks :: "u64 \<Rightarrow> blocks \<Rightarrow> bool" where
  "wfBlocks reqID reqBlocks =
     (distinct (map fst reqBlocks) \<and>
      list_all (\<lambda>(n, req). ID req = reqID \<and> Number (Header req) = n) reqBlocks)"

definition wfRegistry :: "(u64 \<times> blocks) list \<Rightarrow> bool" where
  "wfRegistry registry =
     (distinct (map fst registry) \<and>
      list_all (\<lambda>(reqID, reqBlocks). reqBlocks \<noteq> [] \<and> wfBlocks reqID reqBlocks) registry)"

text \<open>
  The dedup index credits no block number outside \<open>P\<close>: used to follow the index through
  a resolution pass.
\<close>

definition creditedWithin :: "(u64 \<rightharpoonup> ancestorsMap) \<Rightarrow> u64 set \<Rightarrow> bool" where
  "creditedWithin kbr P = (\<forall>i m hsh s. kbr i = Some m \<longrightarrow> m hsh = Some s \<longrightarrow> s \<subseteq> P)"

subsection \<open>What a resolution pass is expected to do\<close>

text \<open>
  The pass over the pending entries of a request id, as the spec describes it, without
  the registry: the entries are taken in ascending order of block number; each is
  offered the pool, which is folded into it; verification is attempted when all its
  parents are known, and then its header joins the pool that the later entries are
  offered. \<open>foldPass\<close> gives, for every entry, the pool it was offered and the entry
  after the fold; \<open>passResults\<close> gives the results sent for the folded entries and the
  cache after them, a header being cached when the rule engine accepts it.
\<close>

definition allParents :: "VerifyRequest \<Rightarrow> bool" where
  "allParents req = (int (length (KnownParents req)) = sint (ParentsExpected req))"

definition entriesAscending :: "blocks \<Rightarrow> VerifyRequest list" where
  "entriesAscending reqBlocks = map snd (sort_key fst reqBlocks)"

fun foldPass ::
  "VerifyRequest list \<Rightarrow> Header list \<Rightarrow> (u64 \<rightharpoonup> ancestorsMap) \<Rightarrow>
     (Header list \<times> VerifyRequest) list" where
  "foldPass [] pool knownByRequests = []"
| "foldPass (req0 # rest) pool knownByRequests =
     (let (req, knownByRequests') = appendAncestors req0 pool knownByRequests
      in (pool, req) #
         foldPass rest (if allParents req then pool @ [Header req] else pool) knownByRequests')"

fun passResults ::
  "Verifier \<Rightarrow> Header list \<Rightarrow> VerifyRequest list \<Rightarrow> VerifyHeaderResponse list \<times> Header list" where
  "passResults srv cache [] = ([], cache)"
| "passResults srv cache (req # rest) =
     (if allParents req
      then (let err = Verify srv cache (Header req) (KnownParents req) (Seal req);
                (results, cache') =
                  passResults srv (if err = None then Header req # cache else cache) rest
            in (\<lparr>respID = ID req, respHash = Hash (Header req), respErr = err\<rparr> # results, cache'))
      else passResults srv cache rest)"

text \<open>
  The pass over the entries of a request id that a fetch result with the headers given
  starts: the pool is the headers of the fetch result and the dedup index is empty.
\<close>

definition resolutionPass :: "blocks \<Rightarrow> Header list \<Rightarrow> (Header list \<times> VerifyRequest) list" where
  "resolutionPass reqBlocks headers = foldPass (entriesAscending reqBlocks) headers Map.empty"

text \<open>
  The inside of the window of a pending entry, and the removal of an entry that is on
  its way on \<^verbatim>\<open>CleanupCh\<close>.
\<close>

definition inWindow :: "VerifyRequest \<Rightarrow> Header \<Rightarrow> bool" where
  "inWindow req p = (From req \<le> Number p \<and> Number p \<le> To req)"

definition removalQueued :: "State \<Rightarrow> u64 \<Rightarrow> u64 \<Rightarrow> bool" where
  "removalQueued st reqID number = (\<lparr>ReqID = reqID, BlockNumber = number\<rparr> \<in> set (CleanupCh st))"

subsection \<open>What a failed fetch sends\<close>

text \<open>
  The results that the failed fetch results of a run send with a given request id: one
  for every fetch result with that id and an error, with the hash and the error of the
  fetch result. The other two predicates say that a run holds no batch with the request
  id, and no batch at all.
\<close>

fun failureNotices :: "u64 \<Rightarrow> (nat \<times> event) list \<Rightarrow> VerifyHeaderResponse list" where
  "failureNotices reqID [] = []"
| "failureNotices reqID ((now, HeaderResponses parentResp) # evs) =
     (case hErr parentResp of
        Some e \<Rightarrow>
          (if hID parentResp = reqID
           then \<lparr>respID = hID parentResp, respHash = hHash parentResp, respErr = Some e\<rparr> #
                failureNotices reqID evs
           else failureNotices reqID evs)
      | None \<Rightarrow> failureNotices reqID evs)"
| "failureNotices reqID ((now, VerifyHeaderRequests req) # evs) = failureNotices reqID evs"
| "failureNotices reqID ((now, CleanupTicker) # evs) = failureNotices reqID evs"
| "failureNotices reqID ((now, FinishedRequests) # evs) = failureNotices reqID evs"

fun noBatchFor :: "u64 \<Rightarrow> (nat \<times> event) list \<Rightarrow> bool" where
  "noBatchFor reqID [] = True"
| "noBatchFor reqID ((now, VerifyHeaderRequests req) # evs) = (vID req \<noteq> reqID \<and> noBatchFor reqID evs)"
| "noBatchFor reqID ((now, HeaderResponses parentResp) # evs) = noBatchFor reqID evs"
| "noBatchFor reqID ((now, CleanupTicker) # evs) = noBatchFor reqID evs"
| "noBatchFor reqID ((now, FinishedRequests) # evs) = noBatchFor reqID evs"

fun noBatch :: "(nat \<times> event) list \<Rightarrow> bool" where
  "noBatch [] = True"
| "noBatch ((now, VerifyHeaderRequests req) # evs) = False"
| "noBatch ((now, HeaderResponses parentResp) # evs) = noBatch evs"
| "noBatch ((now, CleanupTicker) # evs) = noBatch evs"
| "noBatch ((now, FinishedRequests) # evs) = noBatch evs"

subsection \<open>Example data\<close>

text \<open>
  A chain of headers: the header of block \<open>n\<close> has hash \<open>100 + n\<close> and its parent hash
  is the hash of block \<open>n - 1\<close>. An engine is given by the number of parents it needs per
  block number and by its verdict.
\<close>

definition chainHeader :: "nat \<Rightarrow> Header" where
  "chainHeader n = \<lparr>Number = of_nat n, ParentHash = of_nat (100 + n - 1), Hash = of_nat (100 + n)\<rparr>"

text \<open>
  The state at the start: nothing cached, pending, sent or logged, and a channel
  \<^verbatim>\<open>CleanupCh\<close> that takes one finished request at a time (no buffer, and the cleanup
  loop waiting).
\<close>

definition emptyState :: State where
  "emptyState = \<lparr>Cache = [], ProcessingRequests = [], VerifyHeaderResponses = [],
                 HeadersRequests = [], Logged = [], CleanupCh = [], CleanupChCap = 1\<rparr>"

definition engine :: "(u64 \<Rightarrow> u64) \<Rightarrow> error option \<Rightarrow> Verifier" where
  "engine k r = \<lparr>NeededForVerification = (\<lambda>h. k (Number h)), Verify = (\<lambda>c h ps s. r)\<rparr>"

definition needs1 :: "u64 \<Rightarrow> u64" where
  "needs1 n = 1"

definition needs2 :: "u64 \<Rightarrow> u64" where
  "needs2 n = 2"

text \<open>The two highest block numbers of 64 bits.\<close>

definition topHeaders :: "Header list" where
  "topHeaders =
     [\<lparr>Number = 18446744073709551614, ParentHash = 1, Hash = 2\<rparr>,
      \<lparr>Number = 18446744073709551615, ParentHash = 2, Hash = 3\<rparr>]"

definition needs3At12 :: "u64 \<Rightarrow> u64" where
  "needs3At12 n = (if n = 12 then 3 else 1)"

definition needs2At10 :: "u64 \<Rightarrow> u64" where
  "needs2At10 n = (if n = 10 then 2 else 3)"

definition batch :: "u64 \<Rightarrow> nat list \<Rightarrow> nat \<Rightarrow> VerifyHeaderRequest" where
  "batch reqID ns deadline =
     \<lparr>vID = reqID, vHeaders = map (\<lambda>n. Some (chainHeader n)) ns,
      vSeal = map (\<lambda>n. True) ns, vDeadline = Some deadline\<rparr>"

definition pendingEntry :: "u64 \<Rightarrow> nat \<Rightarrow> nat \<Rightarrow> VerifyRequest" where
  "pendingEntry reqID n deadline = toVerifyRequest reqID (chainHeader n) True deadline [] 1"

definition mixedDeadlines :: State where
  "mixedDeadlines =
     emptyState\<lparr>ProcessingRequests :=
       [(1, [(10, pendingEntry 1 10 5), (20, pendingEntry 1 20 100)])]\<rparr>"


definition fetched :: "u64 \<Rightarrow> nat list \<Rightarrow> HeaderResponse" where
  "fetched reqID ns = \<lparr>hID = reqID, hHash = 0, hHeaders = map chainHeader ns, hErr = None\<rparr>"





definition failedFetch :: "u64 \<Rightarrow> hash \<Rightarrow> error \<Rightarrow> HeaderResponse" where
  "failedFetch reqID h e = \<lparr>hID = reqID, hHash = h, hHeaders = [], hErr = Some e\<rparr>"

text \<open>
  Two entries of one request id that two batches left, of block 10 and block 11: block 10
  waits for one parent, block 11 for two, and the window of block 11 holds block 10. The
  channel takes two finished requests.
\<close>

definition laterNeedsEarlier :: State where
  "laterNeedsEarlier =
     emptyState\<lparr>ProcessingRequests :=
       [(1, [(10, toVerifyRequest 1 (chainHeader 10) True 1000 [] 1),
             (11, toVerifyRequest 1 (chainHeader 11) True 1000 [] 2)])],
       CleanupChCap := 2\<rparr>"

section \<open>Properties\<close>

subsection \<open>A nil header in a batch\<close>

text \<open>
  C2. The claim: a batch with at least one header and at least one nil header yields one
  error result for the nil slot, and the batch step fails in no other way. The code does
  not get there: the headers are sorted before the loop that tests for nil, and the
  comparison of the sort reads \<^verbatim>\<open>header.Number\<close> of a nil pointer. Every batch of two or
  more slots with a nil among them (and a seal flag for every slot) ends in the panic,
  with no result sent.
\<close>

theorem C2_nil_header_panics_in_sort:
  assumes "2 \<le> length (vHeaders req)" and "None \<in> set (vHeaders req)"
    and "length (vHeaders req) \<le> length (vSeal req)"
  shows "onVerifyHeaderRequest srv now req st = Some (Inl NilDereference)"
proof -
  from assms(1) have "vHeaders req \<noteq> []" by auto
  with assms show ?thesis by (simp add: onVerifyHeaderRequest_def)
qed

theorem C2_nil_header_panics_in_sort_witness:
  "onVerifyHeaderRequest (engine needs1 None) 0
     \<lparr>vID = 1, vHeaders = [Some (chainHeader 10), None], vSeal = [True, True], vDeadline = None\<rparr>
     emptyState = Some (Inl NilDereference)"
  using C2_nil_header_panics_in_sort
    [of "\<lparr>vID = 1, vHeaders = [Some (chainHeader 10), None], vSeal = [True, True], vDeadline = None\<rparr>"
        "engine needs1 None" 0 emptyState]
  by simp

subsection \<open>The merged fetch request\<close>

lemma sumHeadersRequestsInRange_seed_unfiltered:
  "sumHeadersRequestsInRange 1 10
     [\<lparr>hrID = 1, HighestHash = 110, HighestBlockNumber = 11, hrNumber = 0\<rparr>,
      \<lparr>hrID = 1, HighestHash = 109, HighestBlockNumber = 9, hrNumber = 1\<rparr>]
   = Inr \<lparr>hrID = 1, HighestHash = 110, HighestBlockNumber = 11, hrNumber = 3\<rparr>"
  by code_simp

text \<open>
  C4. The claim: the merged request takes its highest block number among the requests
  with the batch's id and a non-zero count only, strictly below the lowest header of the
  batch, and its count spans from there to the lowest block needed. The code seeds the
  maximum and the minimum with the first request before any of these tests. In the batch
  of blocks 10, 11 and 12 below, block 10 is cached, block 11 needs one parent (in the
  batch: a request with count 0 at block 11) and block 12 needs three (one below the
  batch: block 9, count 1). The merged request should be one header from block 9; the
  code asks for three headers from block 11, with the parent hash of block 11.
\<close>

theorem C4_merged_request_seeded_by_first:
  "onVerifyHeaderRequest (engine needs3At12 None) now
     \<lparr>vID = 1, vHeaders = [Some (chainHeader 10), Some (chainHeader 11), Some (chainHeader 12)],
      vSeal = [True, True, True], vDeadline = Some 5\<rparr>
     (emptyState\<lparr>Cache := [chainHeader 10]\<rparr>)
   = Some (Inr
       \<lparr>Cache = [chainHeader 11, chainHeader 10],
        ProcessingRequests =
          [(1, [(12, \<lparr>ID = 1, Header = chainHeader 12, Seal = True, Deadline = 5,
                       KnownParents = [chainHeader 10, chainHeader 11], ParentsExpected = 3,
                       From = 9, To = 9\<rparr>)])],
        VerifyHeaderResponses =
          [\<lparr>respID = 1, respHash = 110, respErr = None\<rparr>,
           \<lparr>respID = 1, respHash = 111, respErr = None\<rparr>],
        HeadersRequests =
          [\<lparr>hrID = 1, HighestHash = 110, HighestBlockNumber = 11, hrNumber = 3\<rparr>],
        Logged = [], CleanupCh = [\<lparr>ReqID = 1, BlockNumber = 11\<rparr>], CleanupChCap = 1\<rparr>)"
  by code_simp

subsection \<open>Nothing to ask\<close>

text \<open>
  C5. The claim: a batch none of whose headers needs an external fetch sends no fetch
  request and logs "nothing to ask". The code returns \<open>errNothingToAsk\<close> only when no
  header of the batch produced a request at all. The batch of block 10 alone, which needs
  one parent, with block 9 in the cache: the parent is found in the cache, the header is
  verified at once, its request has count 0, and the merged request, with count 0, is
  sent; nothing is logged.
\<close>

theorem C5_zero_count_request_is_sent:
  "onVerifyHeaderRequest (engine needs1 None) now
     \<lparr>vID = 1, vHeaders = [Some (chainHeader 10)], vSeal = [True], vDeadline = Some 5\<rparr>
     (emptyState\<lparr>Cache := [chainHeader 9]\<rparr>)
   = Some (Inr
       \<lparr>Cache = [chainHeader 10, chainHeader 9], ProcessingRequests = [],
        VerifyHeaderResponses = [\<lparr>respID = 1, respHash = 110, respErr = None\<rparr>],
        HeadersRequests =
          [\<lparr>hrID = 1, HighestHash = 109, HighestBlockNumber = 9, hrNumber = 0\<rparr>],
        Logged = [], CleanupCh = [\<lparr>ReqID = 1, BlockNumber = 10\<rparr>], CleanupChCap = 1\<rparr>)"
  by code_simp

subsection \<open>The expiry sweep\<close>

lemma cleanupBlocks_responses:
  "VerifyHeaderResponses (cleanupBlocks now reqID bs st) =
     VerifyHeaderResponses st @ expiredResponses now reqID bs"
  by (induction bs arbitrary: st)
     (auto simp: expiredResponses_def expired_def timeoutResponse_def sendResponse_def)

lemma cleanupBlocks_registry:
  "ProcessingRequests (cleanupBlocks now reqID bs st) =
     (if hasExpired now bs then AList.delete reqID (ProcessingRequests st) else ProcessingRequests st)"
  by (induction bs arbitrary: st)
     (auto simp: hasExpired_def expired_def sendResponse_def AList.delete_idem)

lemma cleanupBlocks_rest:
  "Cache (cleanupBlocks now reqID bs st) = Cache st \<and>
   HeadersRequests (cleanupBlocks now reqID bs st) = HeadersRequests st \<and>
   Logged (cleanupBlocks now reqID bs st) = Logged st \<and>
   CleanupCh (cleanupBlocks now reqID bs st) = CleanupCh st \<and>
   CleanupChCap (cleanupBlocks now reqID bs st) = CleanupChCap st"
  by (induction bs arbitrary: st) (auto simp: sendResponse_def)

lemma cleanupLoop_responses:
  "VerifyHeaderResponses (cleanupLoop now rs st) = VerifyHeaderResponses st @ sweepResponses now rs"
  by (induction rs arbitrary: st) (auto simp: sweepResponses_def cleanupBlocks_responses)

lemma cleanupLoop_registry:
  "ProcessingRequests (cleanupLoop now rs st) =
     filter (\<lambda>(reqID, reqBlocks). reqID \<notin> set (expiredIDs now rs)) (ProcessingRequests st)"
proof (induction rs arbitrary: st)
  case Nil
  then show ?case by (simp add: expiredIDs_def)
next
  case (Cons r rs)
  obtain reqID bs where r: "r = (reqID, bs)" by (cases r)
  show ?case
    unfolding r
    by (auto simp: Cons.IH cleanupBlocks_registry expiredIDs_def AList.delete_eq
             intro!: filter_cong)
qed

lemma cleanupLoop_rest:
  "Cache (cleanupLoop now rs st) = Cache st \<and>
   HeadersRequests (cleanupLoop now rs st) = HeadersRequests st \<and>
   Logged (cleanupLoop now rs st) = Logged st \<and>
   CleanupCh (cleanupLoop now rs st) = CleanupCh st \<and>
   CleanupChCap (cleanupLoop now rs st) = CleanupChCap st"
  by (induction rs arbitrary: st) (auto simp: cleanupBlocks_rest)

lemma cleanup_removes_request:
  assumes "(reqID, reqBlocks) \<in> set (ProcessingRequests st)" and "hasExpired now reqBlocks"
  shows "map_of (ProcessingRequests (cleanup now st)) reqID = None"
proof -
  from assms have "reqID \<in> set (expiredIDs now (ProcessingRequests st))"
    by (force simp: expiredIDs_def)
  then show ?thesis
    by (auto simp: cleanup_def cleanupLoop_registry map_of_eq_None_iff)
qed

lemma sweepResponses_for_request:
  assumes "distinct (map fst registry)" and "(reqID, reqBlocks) \<in> set registry"
  shows "filter (\<lambda>r. respID r = reqID) (sweepResponses now registry) =
           expiredResponses now reqID reqBlocks"
  using assms
proof (induction registry)
  case Nil
  then show ?case by simp
next
  case (Cons r registry)
  obtain i bs where r: "r = (i, bs)" by (cases r)
  have same: "filter (\<lambda>r. respID r = reqID) (expiredResponses now reqID bs') = expiredResponses now reqID bs'" for bs'
    by (simp add: expiredResponses_def timeoutResponse_def filter_map o_def)
  have other: "i \<noteq> reqID \<Longrightarrow> filter (\<lambda>r. respID r = reqID) (expiredResponses now i bs') = []" for bs'
    by (simp add: expiredResponses_def timeoutResponse_def filter_map o_def)
  have none: "reqID \<notin> fst ` set registry \<Longrightarrow> filter (\<lambda>r. respID r = reqID) (sweepResponses now registry) = []"
    by (induction registry) (auto simp: sweepResponses_def expiredResponses_def timeoutResponse_def filter_map o_def)
  show ?case
  proof (cases "i = reqID")
    case True
    with Cons.prems r have "bs = reqBlocks" and "reqID \<notin> fst ` set registry"
      by (auto simp: image_iff)
    with True r show ?thesis using none same by (simp add: sweepResponses_def)
  next
    case False
    with Cons r show ?thesis using other by (auto simp: sweepResponses_def)
  qed
qed


text \<open>
  C10. When the sweep finds an entry of a request id whose deadline has elapsed, the
  results it sends are the timeouts of the entries whose own deadline has elapsed, one
  each, and no other; the results with this request id are exactly the timeouts of its
  own elapsed entries; and afterwards the registry holds no entry of the request id, so
  that every entry of it whose deadline has not elapsed is gone without a result.
\<close>

theorem C10_sweep_results_only_for_expired:
  assumes "distinct (map fst (ProcessingRequests st))"
    and "(reqID, reqBlocks) \<in> set (ProcessingRequests st)"
    and "hasExpired now reqBlocks"
  shows "VerifyHeaderResponses (cleanup now st) =
           VerifyHeaderResponses st @ sweepResponses now (ProcessingRequests st)
       \<and> filter (\<lambda>r. respID r = reqID) (sweepResponses now (ProcessingRequests st)) =
           expiredResponses now reqID reqBlocks
       \<and> map_of (ProcessingRequests (cleanup now st)) reqID = None"
  using assms
  by (simp add: cleanup_def cleanupLoop_responses sweepResponses_for_request
        cleanup_removes_request [unfolded cleanup_def])

theorem C10_sweep_results_only_for_expired_witness:
  "VerifyHeaderResponses (cleanup 50 mixedDeadlines) =
     [\<lparr>respID = 1, respHash = 110, respErr = Some errTimeout\<rparr>]
   \<and> filter (\<lambda>r. respID r = 1) (sweepResponses 50 (ProcessingRequests mixedDeadlines)) =
     [\<lparr>respID = 1, respHash = 110, respErr = Some errTimeout\<rparr>]
   \<and> map_of (ProcessingRequests (cleanup 50 mixedDeadlines)) 1 = None"
proof -
  have h1: "distinct (map fst (ProcessingRequests mixedDeadlines))"
    by (simp add: mixedDeadlines_def emptyState_def)
  have h2: "(1, [(10, pendingEntry 1 10 5), (20, pendingEntry 1 20 100)])
              \<in> set (ProcessingRequests mixedDeadlines)"
    by (simp add: mixedDeadlines_def emptyState_def)
  have h3: "hasExpired 50 [(10, pendingEntry 1 10 5), (20, pendingEntry 1 20 100)]"
    by (simp add: hasExpired_def expired_def pendingEntry_def toVerifyRequest_def)
  have e: "expiredResponses 50 1 [(10, pendingEntry 1 10 5), (20, pendingEntry 1 20 100)] =
             [\<lparr>respID = 1, respHash = 110, respErr = Some errTimeout\<rparr>]"
    by (simp add: expiredResponses_def expired_def timeoutResponse_def pendingEntry_def
          toVerifyRequest_def chainHeader_def)
  have s: "sweepResponses 50 (ProcessingRequests mixedDeadlines) =
             [\<lparr>respID = 1, respHash = 110, respErr = Some errTimeout\<rparr>]"
    by (simp add: sweepResponses_def mixedDeadlines_def emptyState_def e)
  have v: "VerifyHeaderResponses mixedDeadlines = []"
    by (simp add: mixedDeadlines_def emptyState_def)
  from C10_sweep_results_only_for_expired [OF h1 h2 h3] show ?thesis
    by (simp add: e s v)
qed


subsection \<open>Results and removals\<close>

lemma delete_Nil_map_of:
  "AList.delete k al = [] \<Longrightarrow> k' \<noteq> k \<Longrightarrow> map_of al k' = None"
  by (metis map_of_delete map_of.simps(1))

lemma pending_cleanupRequest:
  "pending (cleanupRequest reqID number st) i n =
     (if i = reqID \<and> n = number then None else pending st i n)"
proof (cases "map_of (ProcessingRequests st) reqID")
  case None
  then show ?thesis by (simp add: pending_def cleanupRequest_def)
next
  case (Some reqBlocks)
  show ?thesis
  proof (cases "AList.delete number reqBlocks = []")
    case True
    with Some show ?thesis
      by (auto simp: pending_def cleanupRequest_def AList.delete_conv' delete_Nil_map_of)
  next
    case False
    with Some show ?thesis
      by (auto simp: pending_def cleanupRequest_def AList.update_conv' AList.delete_conv')
  qed
qed

lemma pending_sendResponse [simp]: "pending (sendResponse i h e st) = pending st"
  by (simp add: pending_def sendResponse_def fun_eq_iff)

lemma pending_CacheHeader [simp]: "pending (CacheHeader h st) = pending st"
  by (simp add: pending_def CacheHeader_def fun_eq_iff)

lemma pending_CleanupCh [simp]: "pending (st\<lparr>CleanupCh := q\<rparr>) = pending st"
  by (simp add: pending_def fun_eq_iff)

lemma cleanupRequest_rest [simp]:
  "VerifyHeaderResponses (cleanupRequest reqID number st) = VerifyHeaderResponses st"
  "Cache (cleanupRequest reqID number st) = Cache st"
  "CleanupCh (cleanupRequest reqID number st) = CleanupCh st"
  "CleanupChCap (cleanupRequest reqID number st) = CleanupChCap st"
  "HeadersRequests (cleanupRequest reqID number st) = HeadersRequests st"
  "Logged (cleanupRequest reqID number st) = Logged st"
  by (simp_all add: cleanupRequest_def Let_def split: option.split)

lemma verifyByRequest_incomplete:
  "int (length knownParents) \<noteq> sint parentsExpected \<Longrightarrow>
     verifyByRequest srv reqID header seal parentsExpected knownParents st =
       (Some errNotAllParents, st)"
  by (simp add: verifyByRequest_def)

lemma verifyByRequest_attempted:
  assumes "int (length knownParents) = sint parentsExpected"
  shows "fst (verifyByRequest srv reqID header seal parentsExpected knownParents st) = None"
    and "VerifyHeaderResponses (snd (verifyByRequest srv reqID header seal parentsExpected knownParents st)) =
           VerifyHeaderResponses st @
             [\<lparr>respID = reqID, respHash = Hash header,
               respErr = Verify srv (Cache st) header knownParents seal\<rparr>]"
    and "Cache (snd (verifyByRequest srv reqID header seal parentsExpected knownParents st)) =
           (if Verify srv (Cache st) header knownParents seal = None
            then header # Cache st else Cache st)"
    and "CleanupChCap (snd (verifyByRequest srv reqID header seal parentsExpected knownParents st)) =
           CleanupChCap st"
    and "HeadersRequests (snd (verifyByRequest srv reqID header seal parentsExpected knownParents st)) =
           HeadersRequests st"
    and "Logged (snd (verifyByRequest srv reqID header seal parentsExpected knownParents st)) =
           Logged st"
  using assms
  by (simp_all add: verifyByRequest_def Let_def sendResponse_def CacheHeader_def)

lemma verifyByRequest_queued:
  assumes "int (length knownParents) = sint parentsExpected"
    and "length (CleanupCh st) < CleanupChCap st"
  shows "pending (snd (verifyByRequest srv reqID header seal parentsExpected knownParents st)) =
           pending st"
    and "ProcessingRequests (snd (verifyByRequest srv reqID header seal parentsExpected knownParents st)) =
           ProcessingRequests st"
    and "CleanupCh (snd (verifyByRequest srv reqID header seal parentsExpected knownParents st)) =
           CleanupCh st @ [\<lparr>ReqID = reqID, BlockNumber = Number header\<rparr>]"
  using assms
  by (simp_all add: verifyByRequest_def Let_def sendResponse_def CacheHeader_def pending_def fun_eq_iff)

lemma verifyByRequest_in_place:
  assumes "int (length knownParents) = sint parentsExpected"
    and "\<not> length (CleanupCh st) < CleanupChCap st"
  shows "pending (snd (verifyByRequest srv reqID header seal parentsExpected knownParents st)) i n =
           (if i = reqID \<and> n = Number header then None else pending st i n)"
    and "CleanupCh (snd (verifyByRequest srv reqID header seal parentsExpected knownParents st)) =
           CleanupCh st"
  using assms
  by (simp_all add: verifyByRequest_def Let_def pending_cleanupRequest)
     (simp_all add: sendResponse_def CacheHeader_def pending_def)

lemma verifyByRequest_frame:
  "\<not> (i = reqID \<and> n = Number header) \<Longrightarrow>
     pending (snd (verifyByRequest srv reqID header seal parentsExpected knownParents st)) i n =
       pending st i n"
  by (simp_all add: verifyByRequest_def Let_def pending_cleanupRequest)
     (auto simp: sendResponse_def CacheHeader_def pending_def)

lemma verifyByRequest_queue_grows:
  "set (CleanupCh st) \<subseteq>
     set (CleanupCh (snd (verifyByRequest srv reqID header seal parentsExpected knownParents st)))"
  by (auto simp: verifyByRequest_def Let_def sendResponse_def CacheHeader_def)

lemma verifyByRequest_removal:
  assumes "int (length knownParents) = sint parentsExpected"
  shows "pending (snd (verifyByRequest srv reqID header seal parentsExpected knownParents st))
           reqID (Number header) = None
       \<or> (pending (snd (verifyByRequest srv reqID header seal parentsExpected knownParents st))
            reqID (Number header) = pending st reqID (Number header)
          \<and> removalQueued (snd (verifyByRequest srv reqID header seal parentsExpected knownParents st))
              reqID (Number header))"
proof (cases "length (CleanupCh st) < CleanupChCap st")
  case True
  from verifyByRequest_queued [OF assms True, of srv reqID header seal] show ?thesis
    by (simp add: removalQueued_def)
next
  case False
  from verifyByRequest_in_place [OF assms False, of srv reqID header seal] show ?thesis
    by simp
qed

lemma VerifyRequestsCommonAncestor_absent:
  "map_of (ProcessingRequests st) reqID = None \<Longrightarrow>
     VerifyRequestsCommonAncestor srv reqID headers st = Inr st"
  by (simp add: VerifyRequestsCommonAncestor_def)

lemma expiredResponses_member:
  "(n, req) \<in> set reqBlocks \<Longrightarrow> Deadline req < now \<Longrightarrow>
     timeoutResponse reqID req \<in> set (expiredResponses now reqID reqBlocks)"
  by (force simp: expiredResponses_def expired_def)

lemma sweepResponses_member:
  "(reqID, reqBlocks) \<in> set registry \<Longrightarrow> r \<in> set (expiredResponses now reqID reqBlocks) \<Longrightarrow>
     r \<in> set (sweepResponses now registry)"
  by (force simp: sweepResponses_def)

lemma hasExpired_member:
  "(n, req) \<in> set reqBlocks \<Longrightarrow> Deadline req < now \<Longrightarrow> hasExpired now reqBlocks"
  by (force simp: hasExpired_def expired_def filter_empty_conv)


subsection \<open>A resolution pass\<close>

lemma appendAncestors_keeps:
  "appendAncestors req0 headers kbr = (req, kbr') \<Longrightarrow>
     ID req = ID req0 \<and> Header req = Header req0 \<and> Seal req = Seal req0 \<and>
     ParentsExpected req = ParentsExpected req0 \<and> From req = From req0 \<and> To req = To req0 \<and>
     Deadline req = Deadline req0"
  by (auto simp: appendAncestors_def Let_def split: prod.splits)

lemma pending_update:
  assumes "map_of (ProcessingRequests st) reqID = Some reqHeaders"
  shows "pending (st\<lparr>ProcessingRequests :=
                      AList.update reqID (AList.update num req reqHeaders) (ProcessingRequests st)\<rparr>) i n =
           (if i = reqID \<and> n = num then Some req else pending st i n)"
  using assms by (simp add: pending_def AList.update_conv')

lemma pending_Some_lookup:
  "pending st reqID num = Some req0 \<Longrightarrow>
     \<exists>reqHeaders. map_of (ProcessingRequests st) reqID = Some reqHeaders \<and>
                   map_of reqHeaders num = Some req0"
  by (auto simp: pending_def split: option.splits)

lemma appendLoop_window:
  "appendLoop blockNumber from to ancestors (m, known) = (m', known') \<Longrightarrow>
     \<exists>added. known' = known @ added \<and>
             set added \<subseteq> {p \<in> set ancestors. from \<le> Number p \<and> Number p \<le> to}"
proof (induction ancestors arbitrary: m known)
  case Nil
  then show ?case by simp
next
  case (Cons parent rest)
  show ?case
  proof (cases "from \<le> Number parent \<and> Number parent \<le> to")
    case False
    with Cons.prems have "appendLoop blockNumber from to rest (m, known) = (m', known')" by auto
    from Cons.IH [OF this] show ?thesis by auto
  next
    case True
    show ?thesis
    proof (cases "\<exists>parentMap. m (Hash parent) = Some parentMap \<and> blockNumber \<in> parentMap")
      case True
      with \<open>from \<le> Number parent \<and> Number parent \<le> to\<close> Cons.prems
      have "appendLoop blockNumber from to rest (m, known) = (m', known')" by auto
      from Cons.IH [OF this] show ?thesis by auto
    next
      case False
      with \<open>from \<le> Number parent \<and> Number parent \<le> to\<close> Cons.prems
      have "appendLoop blockNumber from to rest
              (m(Hash parent \<mapsto> {blockNumber}), known @ [parent]) = (m', known')"
        by (auto split: option.splits)
      from Cons.IH [OF this] obtain added where
        "known' = (known @ [parent]) @ added"
        "set added \<subseteq> {p \<in> set rest. from \<le> Number p \<and> Number p \<le> to}" by blast
      with \<open>from \<le> Number parent \<and> Number parent \<le> to\<close> show ?thesis
        by (intro exI [of _ "parent # added"]) auto
    qed
  qed
qed

lemma appendAncestors_window:
  assumes "appendAncestors req0 pool kbr = (req, kbr')"
  shows "\<exists>added. KnownParents req = KnownParents req0 @ added \<and>
           set added \<subseteq> {p \<in> set pool. From req0 \<le> Number p \<and> Number p \<le> To req0}"
proof -
  from assms obtain m0 m' known' where
    l: "appendLoop (Number (Header req0)) (From req0) (To req0) pool (m0, KnownParents req0) = (m', known')"
    and r: "req = req0\<lparr>KnownParents := known'\<rparr>"
    by (auto simp: appendAncestors_def Let_def split: prod.splits)
  from appendLoop_window [OF l] r show ?thesis by simp
qed

lemma fold_CacheHeader:
  "ProcessingRequests (fold CacheHeader hs st) = ProcessingRequests st \<and>
   VerifyHeaderResponses (fold CacheHeader hs st) = VerifyHeaderResponses st \<and>
   Cache (fold CacheHeader hs st) = rev hs @ Cache st \<and>
   CleanupCh (fold CacheHeader hs st) = CleanupCh st \<and>
   CleanupChCap (fold CacheHeader hs st) = CleanupChCap st"
  by (induction hs arbitrary: st) (auto simp: CacheHeader_def)

lemma pending_fold_CacheHeader [simp]: "pending (fold CacheHeader hs st) = pending st"
  by (simp add: pending_def fold_CacheHeader fun_eq_iff)


lemma appendLoop_complete:
  assumes "appendLoop b from to ancestors (m, known) = (m', known')"
    and "\<forall>hsh s. m hsh = Some s \<longrightarrow> b \<in> s \<longrightarrow> hsh \<in> Hash ` set known"
  shows "(\<forall>p \<in> set ancestors. from \<le> Number p \<and> Number p \<le> to \<longrightarrow> Hash p \<in> Hash ` set known')
       \<and> (\<forall>hsh s. m' hsh = Some s \<longrightarrow> s = {b} \<or> m hsh = Some s)"
  using assms
proof (induction ancestors arbitrary: m known)
  case Nil
  then show ?case by simp
next
  case (Cons parent rest)
  show ?case
  proof (cases "from \<le> Number parent \<and> Number parent \<le> to")
    case False
    with Cons.prems(1) have l: "appendLoop b from to rest (m, known) = (m', known')" by auto
    from Cons.IH [OF l Cons.prems(2)] False show ?thesis by auto
  next
    case True
    show ?thesis
    proof (cases "\<exists>parentMap. m (Hash parent) = Some parentMap \<and> b \<in> parentMap")
      case True
      with \<open>from \<le> Number parent \<and> Number parent \<le> to\<close> Cons.prems(1)
      have l: "appendLoop b from to rest (m, known) = (m', known')" by auto
      from appendLoop_window [OF l] have sub: "set known \<subseteq> set known'" by auto
      from True Cons.prems(2) have "Hash parent \<in> Hash ` set known" by blast
      with sub have "Hash parent \<in> Hash ` set known'" by blast
      with Cons.IH [OF l Cons.prems(2)] show ?thesis by auto
    next
      case False
      let ?m1 = "m(Hash parent \<mapsto> {b})"
      from False \<open>from \<le> Number parent \<and> Number parent \<le> to\<close> Cons.prems(1)
      have l: "appendLoop b from to rest (?m1, known @ [parent]) = (m', known')"
        by (auto split: option.splits)
      from appendLoop_window [OF l] have sub: "set (known @ [parent]) \<subseteq> set known'" by auto
      have inv1: "\<forall>hsh s. ?m1 hsh = Some s \<longrightarrow> b \<in> s \<longrightarrow> hsh \<in> Hash ` set (known @ [parent])"
        using Cons.prems(2) by auto
      from Cons.IH [OF l inv1] have
        i1: "\<forall>p \<in> set rest. from \<le> Number p \<and> Number p \<le> to \<longrightarrow> Hash p \<in> Hash ` set known'"
        and i2: "\<forall>hsh s. m' hsh = Some s \<longrightarrow> s = {b} \<or> ?m1 hsh = Some s" by auto
      from sub have "Hash parent \<in> Hash ` set known'" by auto
      moreover from i2 have "\<forall>hsh s. m' hsh = Some s \<longrightarrow> s = {b} \<or> m hsh = Some s"
        by (auto split: if_splits)
      ultimately show ?thesis using i1 by auto
    qed
  qed
qed

lemma fold_index_init:
  "fold (\<lambda>p m. m(Hash p \<mapsto> {b})) kps m0 hsh = Some s \<Longrightarrow>
     (hsh \<in> Hash ` set kps \<and> s = {b}) \<or> m0 hsh = Some s"
proof (induction kps arbitrary: m0)
  case Nil
  then show ?case by simp
next
  case (Cons a kps)
  from Cons.prems have "fold (\<lambda>p m. m(Hash p \<mapsto> {b})) kps (m0(Hash a \<mapsto> {b})) hsh = Some s"
    by (simp only: fold_simps o_apply)
  from Cons.IH [OF this]
  have "(hsh \<in> Hash ` set kps \<and> s = {b}) \<or> (m0(Hash a \<mapsto> {b})) hsh = Some s" .
  then show ?case by (cases "hsh = Hash a") auto
qed

lemma appendAncestors_complete:
  assumes "appendAncestors req0 pool kbr = (req, kbr')"
    and "creditedWithin kbr P" and "Number (Header req0) \<notin> P"
  shows "(\<forall>p \<in> set pool. From req0 \<le> Number p \<and> Number p \<le> To req0 \<longrightarrow>
            Hash p \<in> Hash ` set (KnownParents req))
       \<and> creditedWithin kbr' (insert (Number (Header req0)) P)"
proof -
  let ?b = "Number (Header req0)"
  let ?m0 = "case kbr (ID req0) of
               Some m \<Rightarrow> m
             | None \<Rightarrow> fold (\<lambda>p m. m(Hash p \<mapsto> {?b})) (KnownParents req0) Map.empty"
  from assms(1) obtain m' known' where
    l: "appendLoop ?b (From req0) (To req0) pool (?m0, KnownParents req0) = (m', known')"
    and r: "req = req0\<lparr>KnownParents := known'\<rparr>" and k: "kbr' = kbr(ID req0 \<mapsto> m')"
    by (auto simp: appendAncestors_def Let_def split: prod.splits)
  have v0: "\<forall>hsh s. ?m0 hsh = Some s \<longrightarrow>
              (hsh \<in> Hash ` set (KnownParents req0) \<and> s = {?b}) \<or> s \<subseteq> P"
  proof (cases "kbr (ID req0)")
    case None
    then show ?thesis using fold_index_init [of ?b "KnownParents req0" Map.empty] by auto
  next
    case (Some m)
    with assms(2) show ?thesis by (auto simp: creditedWithin_def)
  qed
  have inv0: "\<forall>hsh s. ?m0 hsh = Some s \<longrightarrow> ?b \<in> s \<longrightarrow> hsh \<in> Hash ` set (KnownParents req0)"
    using v0 assms(3) by blast
  from appendLoop_complete [OF l inv0] have
    c1: "\<forall>p \<in> set pool. From req0 \<le> Number p \<and> Number p \<le> To req0 \<longrightarrow> Hash p \<in> Hash ` set known'"
    and c2: "\<forall>hsh s. m' hsh = Some s \<longrightarrow> s = {?b} \<or> ?m0 hsh = Some s" by auto
  have mv: "\<forall>hsh s. m' hsh = Some s \<longrightarrow> s \<subseteq> insert ?b P"
    using c2 v0 by blast
  have "creditedWithin kbr' (insert ?b P)"
    unfolding creditedWithin_def
  proof (intro allI impI)
    fix i m hsh s
    assume km: "kbr' i = Some m" and ms: "m hsh = Some s"
    show "s \<subseteq> insert ?b P"
    proof (cases "i = ID req0")
      case True
      with km k have "m = m'" by simp
      with ms mv show ?thesis by blast
    next
      case False
      with km k have "kbr i = Some m" by simp
      with assms(2) ms have "s \<subseteq> P" unfolding creditedWithin_def by blast
      then show ?thesis by blast
    qed
  qed
  with c1 r show ?thesis by simp
qed


lemma commonAncestorStep_char:
  assumes "pending st reqID num = Some req0"
    and "ID req0 = reqID" and "Number (Header req0) = num"
    and "appendAncestors req0 pool kbr = (req, kbr')"
  shows "\<exists>st'. commonAncestorStep srv reqID num (pool, kbr, st) =
            Inr (if allParents req then pool @ [Header req] else pool, kbr', st')
       \<and> VerifyHeaderResponses st' =
           VerifyHeaderResponses st @
             (if allParents req
              then [\<lparr>respID = reqID, respHash = Hash (Header req),
                     respErr = Verify srv (Cache st) (Header req) (KnownParents req) (Seal req)\<rparr>]
              else [])
       \<and> Cache st' =
           (if allParents req \<and> Verify srv (Cache st) (Header req) (KnownParents req) (Seal req) = None
            then Header req # Cache st else Cache st)
       \<and> (\<forall>i n. \<not> (i = reqID \<and> n = num) \<longrightarrow> pending st' i n = pending st i n)
       \<and> (if allParents req
          then pending st' reqID num = None
             \<or> (pending st' reqID num = Some req \<and> removalQueued st' reqID num)
          else pending st' reqID num = Some req)
       \<and> set (CleanupCh st) \<subseteq> set (CleanupCh st')"
proof -
  from pending_Some_lookup [OF assms(1)] obtain reqHeaders where
    l: "map_of (ProcessingRequests st) reqID = Some reqHeaders" "map_of reqHeaders num = Some req0"
    by blast
  note k = appendAncestors_keeps [OF assms(4)]
  let ?st1 = "st\<lparr>ProcessingRequests :=
                   AList.update reqID (AList.update num req reqHeaders) (ProcessingRequests st)\<rparr>"
  have p1: "pending ?st1 i n = (if i = reqID \<and> n = num then Some req else pending st i n)" for i n
    using l(1) by (rule pending_update)
  have i: "ID req = reqID" and h: "Number (Header req) = num" using k assms(2,3) by simp_all
  show ?thesis
  proof (cases "allParents req")
    case False
    then have "int (length (KnownParents req)) \<noteq> sint (ParentsExpected req)"
      by (simp add: allParents_def)
    from verifyByRequest_incomplete [OF this] False l assms(4) p1 show ?thesis
      by (simp add: commonAncestorStep_def)
  next
    case True
    then have t: "int (length (KnownParents req)) = sint (ParentsExpected req)"
      by (simp add: allParents_def)
    obtain err st2 where v:
      "verifyByRequest srv (ID req) (Header req) (Seal req) (ParentsExpected req) (KnownParents req) ?st1
         = (err, st2)"
      by (cases "verifyByRequest srv (ID req) (Header req) (Seal req) (ParentsExpected req)
                   (KnownParents req) ?st1")
    from verifyByRequest_attempted [OF t, of srv "ID req" "Header req" "Seal req" ?st1] v
    have e: "err = None"
      and r: "VerifyHeaderResponses st2 =
           VerifyHeaderResponses st @
             [\<lparr>respID = ID req, respHash = Hash (Header req),
               respErr = Verify srv (Cache st) (Header req) (KnownParents req) (Seal req)\<rparr>]"
      and c: "Cache st2 =
           (if Verify srv (Cache st) (Header req) (KnownParents req) (Seal req) = None
            then Header req # Cache st else Cache st)"
      by simp_all
    have f: "\<not> (i = ID req \<and> n = Number (Header req)) \<Longrightarrow> pending st2 i n = pending ?st1 i n"
      for i n
      using verifyByRequest_frame [of i "ID req" n "Header req" srv "Seal req" "ParentsExpected req"
           "KnownParents req" ?st1] v
      by simp
    have q: "set (CleanupCh st) \<subseteq> set (CleanupCh st2)"
      using verifyByRequest_queue_grows [of ?st1 srv "ID req" "Header req" "Seal req"
           "ParentsExpected req" "KnownParents req"] v
      by simp
    from verifyByRequest_removal [OF t, of srv "ID req" "Header req" "Seal req" ?st1] v
    have m: "pending st2 reqID num = None
           \<or> (pending st2 reqID num = Some req \<and> removalQueued st2 reqID num)"
      using i h p1 by simp
    have "commonAncestorStep srv reqID num (pool, kbr, st) = Inr (pool @ [Header req], kbr', st2)"
      using l assms(4) v e by (simp add: commonAncestorStep_def)
    moreover have "\<forall>i n. \<not> (i = reqID \<and> n = num) \<longrightarrow> pending st2 i n = pending st i n"
      using f p1 i h by simp
    ultimately show ?thesis using True r c m q i by simp
  qed
qed

lemma commonAncestorLoop_refines:
  assumes "distinct (map fst ps)"
    and "\<forall>(n, r) \<in> set ps. pending st reqID n = Some r \<and> ID r = reqID \<and> Number (Header r) = n"
  shows "\<exists>kbr' st'.
      commonAncestorLoop srv reqID (map fst ps) (pool, kbr, st) =
        Inr (pool @ map Header (filter allParents (map snd (foldPass (map snd ps) pool kbr))),
             kbr', st')
    \<and> VerifyHeaderResponses st' =
        VerifyHeaderResponses st @
          fst (passResults srv (Cache st) (map snd (foldPass (map snd ps) pool kbr)))
    \<and> Cache st' = snd (passResults srv (Cache st) (map snd (foldPass (map snd ps) pool kbr)))
    \<and> (\<forall>i n. \<not> (i = reqID \<and> n \<in> fst ` set ps) \<longrightarrow> pending st' i n = pending st i n)
    \<and> (\<forall>(p, r) \<in> set (foldPass (map snd ps) pool kbr).
          if allParents r
          then pending st' reqID (Number (Header r)) = None
             \<or> (pending st' reqID (Number (Header r)) = Some r
                \<and> removalQueued st' reqID (Number (Header r)))
          else pending st' reqID (Number (Header r)) = Some r)
    \<and> set (CleanupCh st) \<subseteq> set (CleanupCh st')"
  using assms
proof (induction ps arbitrary: pool kbr st)
  case Nil
  then show ?case by simp
next
  case (Cons p rest)
  obtain num req0 where p: "p = (num, req0)" by (cases p)
  from Cons.prems(2) p have
    r0: "pending st reqID num = Some req0" "ID req0 = reqID" "Number (Header req0) = num"
    by auto
  obtain req kbr1 where a: "appendAncestors req0 pool kbr = (req, kbr1)"
    by (cases "appendAncestors req0 pool kbr")
  note k = appendAncestors_keeps [OF a]
  let ?err = "Verify srv (Cache st) (Header req) (KnownParents req) (Seal req)"
  let ?pool1 = "if allParents req then pool @ [Header req] else pool"
  let ?pass = "foldPass (map snd rest) ?pool1 kbr1"
  from commonAncestorStep_char [OF r0 a, of srv] obtain st1 where
    s: "commonAncestorStep srv reqID num (pool, kbr, st) = Inr (?pool1, kbr1, st1)"
    and sr: "VerifyHeaderResponses st1 =
           VerifyHeaderResponses st @
             (if allParents req
              then [\<lparr>respID = reqID, respHash = Hash (Header req), respErr = ?err\<rparr>]
              else [])"
    and sc: "Cache st1 = (if allParents req \<and> ?err = None then Header req # Cache st else Cache st)"
    and sf: "\<And>i n. \<not> (i = reqID \<and> n = num) \<Longrightarrow> pending st1 i n = pending st i n"
    and sp: "if allParents req
          then pending st1 reqID num = None
             \<or> (pending st1 reqID num = Some req \<and> removalQueued st1 reqID num)
          else pending st1 reqID num = Some req"
    and sq: "set (CleanupCh st) \<subseteq> set (CleanupCh st1)"
    by blast
  from Cons.prems(1) p have d: "distinct (map fst rest)" and nr: "num \<notin> fst ` set rest" by auto
  have pre: "\<forall>(n, r) \<in> set rest. pending st1 reqID n = Some r \<and> ID r = reqID \<and> Number (Header r) = n"
  proof (intro ballI, clarify)
    fix n r assume m: "(n, r) \<in> set rest"
    with nr have "n \<noteq> num" by force
    with sf have "pending st1 reqID n = pending st reqID n" by simp
    with Cons.prems(2) m show "pending st1 reqID n = Some r \<and> ID r = reqID \<and> Number (Header r) = n"
      by auto
  qed
  from Cons.IH [OF d pre, of ?pool1 kbr1] obtain kbr' st' where
    l: "commonAncestorLoop srv reqID (map fst rest) (?pool1, kbr1, st1) =
          Inr (?pool1 @ map Header (filter allParents (map snd ?pass)), kbr', st')"
    and lr: "VerifyHeaderResponses st' =
        VerifyHeaderResponses st1 @ fst (passResults srv (Cache st1) (map snd ?pass))"
    and lc: "Cache st' = snd (passResults srv (Cache st1) (map snd ?pass))"
    and lf: "\<And>i n. \<not> (i = reqID \<and> n \<in> fst ` set rest) \<Longrightarrow> pending st' i n = pending st1 i n"
    and lp: "\<forall>(p, r) \<in> set ?pass.
          if allParents r
          then pending st' reqID (Number (Header r)) = None
             \<or> (pending st' reqID (Number (Header r)) = Some r
                \<and> removalQueued st' reqID (Number (Header r)))
          else pending st' reqID (Number (Header r)) = Some r"
    and lq: "set (CleanupCh st1) \<subseteq> set (CleanupCh st')"
    by blast
  have fp: "foldPass (map snd (p # rest)) pool kbr = (pool, req) # ?pass"
    using a p by simp
  have i: "ID req = reqID" and h: "Number (Header req) = num" using k r0 by simp_all
  have c1: "commonAncestorLoop srv reqID (map fst (p # rest)) (pool, kbr, st) =
        Inr (pool @ map Header (filter allParents (map snd (foldPass (map snd (p # rest)) pool kbr))),
             kbr', st')"
    unfolding fp using s l p by simp
  have c2: "VerifyHeaderResponses st' =
        VerifyHeaderResponses st @
          fst (passResults srv (Cache st) (map snd (foldPass (map snd (p # rest)) pool kbr)))"
    unfolding fp using lr sr sc i by (simp add: Let_def split: prod.split)
  have c3: "Cache st' =
        snd (passResults srv (Cache st) (map snd (foldPass (map snd (p # rest)) pool kbr)))"
    unfolding fp using lc sc by (simp add: Let_def split: prod.split)
  have c4: "\<forall>i n. \<not> (i = reqID \<and> n \<in> fst ` set (p # rest)) \<longrightarrow> pending st' i n = pending st i n"
    using lf sf p by auto
  have pn: "pending st' reqID num = pending st1 reqID num" using lf nr by simp
  have qn: "removalQueued st1 reqID num \<Longrightarrow> removalQueued st' reqID num"
    using lq by (auto simp: removalQueued_def)
  have c5: "\<forall>(p, r) \<in> set (foldPass (map snd (p # rest)) pool kbr).
          if allParents r
          then pending st' reqID (Number (Header r)) = None
             \<or> (pending st' reqID (Number (Header r)) = Some r
                \<and> removalQueued st' reqID (Number (Header r)))
          else pending st' reqID (Number (Header r)) = Some r"
    unfolding fp using lp sp pn qn h by auto
  have c6: "set (CleanupCh st) \<subseteq> set (CleanupCh st')" using sq lq by blast
  from c1 c2 c3 c4 c5 c6 show ?case by blast
qed

lemma map_insort_key: "map f (insort_key f x xs) = insort (f x) (map f xs)"
  by (induction xs) auto

lemma map_sort_key: "map f (sort_key f xs) = sort (map f xs)"
  by (induction xs) (auto simp: map_insort_key)

lemma foldPass_length [simp]: "length (foldPass es pool kbr) = length es"
  by (induction es arbitrary: pool kbr) (auto simp: Let_def split: prod.split)

lemma appendAncestors_shape:
  "appendAncestors req0 pool kbr = (req, kbr') \<Longrightarrow> req = req0\<lparr>KnownParents := KnownParents req\<rparr>"
  by (auto simp: appendAncestors_def Let_def split: prod.splits)

lemma foldPass_pools:
  "i < length es \<Longrightarrow>
     fst (foldPass es pool kbr ! i) =
       pool @ map Header (filter allParents (map snd (take i (foldPass es pool kbr))))"
proof (induction es arbitrary: pool kbr i)
  case Nil
  then show ?case by simp
next
  case (Cons req0 rest)
  obtain req kbr1 where a: "appendAncestors req0 pool kbr = (req, kbr1)"
    by (cases "appendAncestors req0 pool kbr")
  show ?case
  proof (cases i)
    case 0
    then show ?thesis using a by simp
  next
    case (Suc j)
    with Cons.prems have "j < length rest" by simp
    from Cons.IH [OF this] Suc a show ?thesis by simp
  qed
qed

lemma foldPass_entries:
  "i < length es \<Longrightarrow>
     \<exists>added. snd (foldPass es pool kbr ! i) = (es ! i)\<lparr>KnownParents := KnownParents (es ! i) @ added\<rparr>
           \<and> set added \<subseteq> {p \<in> set (fst (foldPass es pool kbr ! i)). inWindow (es ! i) p}"
proof (induction es arbitrary: pool kbr i)
  case Nil
  then show ?case by simp
next
  case (Cons req0 rest)
  obtain req kbr1 where a: "appendAncestors req0 pool kbr = (req, kbr1)"
    by (cases "appendAncestors req0 pool kbr")
  show ?case
  proof (cases i)
    case 0
    from appendAncestors_window [OF a] obtain added where
      "KnownParents req = KnownParents req0 @ added"
      "set added \<subseteq> {p \<in> set pool. From req0 \<le> Number p \<and> Number p \<le> To req0}" by blast
    with appendAncestors_shape [OF a] 0 a show ?thesis
      by (intro exI [of _ added]) (simp add: inWindow_def)
  next
    case (Suc j)
    with Cons.prems have "j < length rest" by simp
    from Cons.IH [OF this] Suc a show ?thesis by simp
  qed
qed

lemma foldPass_complete:
  assumes "creditedWithin kbr P"
    and "distinct (map (Number \<circ> Header) es)"
    and "(Number \<circ> Header) ` set es \<inter> P = {}"
  shows "\<forall>(offered, r) \<in> set (foldPass es pool kbr).
           \<forall>p \<in> set offered. inWindow r p \<longrightarrow> Hash p \<in> Hash ` set (KnownParents r)"
  using assms
proof (induction es arbitrary: pool kbr P)
  case Nil
  then show ?case by simp
next
  case (Cons req0 rest)
  obtain req kbr1 where a: "appendAncestors req0 pool kbr = (req, kbr1)"
    by (cases "appendAncestors req0 pool kbr")
  note k = appendAncestors_keeps [OF a]
  from Cons.prems(3) have np: "Number (Header req0) \<notin> P" by auto
  from appendAncestors_complete [OF a Cons.prems(1) np] have
    ac: "\<forall>p \<in> set pool. From req0 \<le> Number p \<and> Number p \<le> To req0 \<longrightarrow>
            Hash p \<in> Hash ` set (KnownParents req)"
    and cw: "creditedWithin kbr1 (insert (Number (Header req0)) P)" by auto
  from Cons.prems(2) have d: "distinct (map (Number \<circ> Header) rest)"
    and nr: "Number (Header req0) \<notin> (Number \<circ> Header) ` set rest" by (auto simp: o_def)
  have dis: "(Number \<circ> Header) ` set rest \<inter> insert (Number (Header req0)) P = {}"
    using Cons.prems(3) nr by auto
  note ih = Cons.IH [OF cw d dis, of "if allParents req then pool @ [Header req] else pool"]
  have "\<forall>p \<in> set pool. inWindow req p \<longrightarrow> Hash p \<in> Hash ` set (KnownParents req)"
    using ac k by (simp add: inWindow_def)
  with ih a show ?case by simp
qed

lemma passResults_Cons:
  "passResults srv cache (req # rest) =
     (if allParents req
      then (\<lparr>respID = ID req, respHash = Hash (Header req),
              respErr = Verify srv cache (Header req) (KnownParents req) (Seal req)\<rparr> #
            fst (passResults srv
                   (if Verify srv cache (Header req) (KnownParents req) (Seal req) = None
                    then Header req # cache else cache) rest),
            snd (passResults srv
                   (if Verify srv cache (Header req) (KnownParents req) (Seal req) = None
                    then Header req # cache else cache) rest))
      else passResults srv cache rest)"
  by (simp add: Let_def split: prod.split)


lemma passResults_ids:
  "r \<in> set (fst (passResults srv cache rs)) \<Longrightarrow> respID r \<in> ID ` set rs"
proof (induction rs arbitrary: cache)
  case Nil
  then show ?case by simp
next
  case (Cons a rs)
  show ?case
  proof (cases "allParents a")
    case False
    with Cons.prems have "r \<in> set (fst (passResults srv cache rs))"
      by (simp only: passResults_Cons if_False)
    from Cons.IH [OF this] show ?thesis by simp
  next
    case True
    let ?c = "if Verify srv cache (Header a) (KnownParents a) (Seal a) = None then Header a # cache else cache"
    from True Cons.prems have "respID r = ID a \<or> r \<in> set (fst (passResults srv ?c rs))"
      by (simp only: passResults_Cons if_True) auto
    with Cons.IH [of ?c] show ?thesis by auto
  qed
qed

lemma entriesAscending_props:
  assumes "wfBlocks reqID reqBlocks"
  shows "map (Number \<circ> Header) (entriesAscending reqBlocks) = sort (map fst reqBlocks)"
    and "sorted (map (Number \<circ> Header) (entriesAscending reqBlocks))"
    and "distinct (map (Number \<circ> Header) (entriesAscending reqBlocks))"
    and "mset (entriesAscending reqBlocks) = mset (map snd reqBlocks)"
    and "ID ` set (entriesAscending reqBlocks) \<subseteq> {reqID}"
proof -
  from assms have dk: "distinct (map fst reqBlocks)"
    and wf: "\<And>n r. (n, r) \<in> set reqBlocks \<Longrightarrow> ID r = reqID \<and> Number (Header r) = n"
    by (auto simp: wfBlocks_def list_all_iff)
  have "map (Number \<circ> Header) (entriesAscending reqBlocks) = map fst (sort_key fst reqBlocks)"
    using wf by (auto simp: entriesAscending_def)
  then show e: "map (Number \<circ> Header) (entriesAscending reqBlocks) = sort (map fst reqBlocks)"
    by (simp add: map_sort_key)
  show "sorted (map (Number \<circ> Header) (entriesAscending reqBlocks))" unfolding e by simp
  show "distinct (map (Number \<circ> Header) (entriesAscending reqBlocks))" unfolding e using dk by simp
  show "mset (entriesAscending reqBlocks) = mset (map snd reqBlocks)"
    by (simp add: entriesAscending_def)
  show "ID ` set (entriesAscending reqBlocks) \<subseteq> {reqID}"
    using wf by (auto simp: entriesAscending_def)
qed

lemma VerifyRequestsCommonAncestor_refines:
  assumes "headers \<noteq> []"
    and "map_of (ProcessingRequests st) reqID = Some reqBlocks"
    and "wfBlocks reqID reqBlocks"
  shows "\<exists>kbr' st'.
      VerifyRequestsCommonAncestor srv reqID headers st = Inr st'
    \<and> commonAncestorLoop srv reqID (sort (map fst reqBlocks))
          (headers, Map.empty, fold CacheHeader headers st) =
        Inr (headers @ map Header (filter allParents (map snd (resolutionPass reqBlocks headers))),
             kbr', st')
    \<and> VerifyHeaderResponses st' =
        VerifyHeaderResponses st @
          fst (passResults srv (rev headers @ Cache st) (map snd (resolutionPass reqBlocks headers)))
    \<and> Cache st' =
        snd (passResults srv (rev headers @ Cache st) (map snd (resolutionPass reqBlocks headers)))
    \<and> (\<forall>i n. \<not> (i = reqID \<and> n \<in> fst ` set reqBlocks) \<longrightarrow> pending st' i n = pending st i n)
    \<and> (\<forall>(p, r) \<in> set (resolutionPass reqBlocks headers).
          if allParents r
          then pending st' reqID (Number (Header r)) = None
             \<or> (pending st' reqID (Number (Header r)) = Some r
                \<and> removalQueued st' reqID (Number (Header r)))
          else pending st' reqID (Number (Header r)) = Some r)
    \<and> set (CleanupCh st) \<subseteq> set (CleanupCh st')"
proof -
  let ?ps = "sort_key fst reqBlocks"
  let ?st1 = "fold CacheHeader headers st"
  from assms(3) have dk: "distinct (map fst reqBlocks)"
    and wf: "\<And>n r. (n, r) \<in> set reqBlocks \<Longrightarrow> ID r = reqID \<and> Number (Header r) = n"
    by (auto simp: wfBlocks_def list_all_iff)
  have nums: "map fst ?ps = sort (map fst reqBlocks)" by (rule map_sort_key)
  have d: "distinct (map fst ?ps)" unfolding nums using dk by simp
  have pe: "pending st reqID n = map_of reqBlocks n" for n
    using assms(2) by (simp add: pending_def)
  have pre: "\<forall>(n, r) \<in> set ?ps. pending ?st1 reqID n = Some r \<and> ID r = reqID \<and> Number (Header r) = n"
    using dk wf by (auto simp: pe)
  from commonAncestorLoop_refines [OF d pre, of srv headers Map.empty]
  obtain kbr' st' where
    l: "commonAncestorLoop srv reqID (map fst ?ps) (headers, Map.empty, ?st1) =
        Inr (headers @ map Header (filter allParents (map snd (foldPass (map snd ?ps) headers Map.empty))),
             kbr', st')"
    and lr: "VerifyHeaderResponses st' =
        VerifyHeaderResponses ?st1 @
          fst (passResults srv (Cache ?st1) (map snd (foldPass (map snd ?ps) headers Map.empty)))"
    and lc: "Cache st' = snd (passResults srv (Cache ?st1) (map snd (foldPass (map snd ?ps) headers Map.empty)))"
    and lf: "\<forall>i n. \<not> (i = reqID \<and> n \<in> fst ` set ?ps) \<longrightarrow> pending st' i n = pending ?st1 i n"
    and lp: "\<forall>(p, r) \<in> set (foldPass (map snd ?ps) headers Map.empty).
          if allParents r
          then pending st' reqID (Number (Header r)) = None
             \<or> (pending st' reqID (Number (Header r)) = Some r
                \<and> removalQueued st' reqID (Number (Header r)))
          else pending st' reqID (Number (Header r)) = Some r"
    and lq: "set (CleanupCh ?st1) \<subseteq> set (CleanupCh st')"
    by blast
  have rp: "foldPass (map snd ?ps) headers Map.empty = resolutionPass reqBlocks headers"
    by (simp add: resolutionPass_def entriesAscending_def)
  have c1: "VerifyRequestsCommonAncestor srv reqID headers st = Inr st'"
    using assms(1,2) l by (simp add: VerifyRequestsCommonAncestor_def nums)
  from c1 l lr lc lf lp lq show ?thesis
    unfolding rp nums by (simp add: fold_CacheHeader)
qed




subsection \<open>The pool of a resolution pass\<close>

text \<open>
  C9. In the pass that a fetch result starts over the pending entries of its request
  id, the pool at the end of the loop is the headers of the result followed by the
  header of every entry at which verification was attempted, in ascending order of
  block number: the pool does not depend on the rule engine. For an entry at which
  verification is attempted and any later entry of the pass: the later entry has the
  higher block number, the header of the earlier entry is in the pool that the later
  entry is offered, and when it lies inside the window of the later entry it is among
  the known parents with which the later entry is decided, by its hash. The results of
  the pass are those of \<open>passResults\<close> on the entries folded from these pools, whatever
  the verdicts are.
\<close>

theorem C9_attempted_header_joins_pool:
  assumes "headers \<noteq> []"
    and "map_of (ProcessingRequests st) reqID = Some reqBlocks"
    and "wfBlocks reqID reqBlocks"
  shows "\<exists>pool' kbr' st'.
      VerifyRequestsCommonAncestor srv reqID headers st = Inr st'
    \<and> commonAncestorLoop srv reqID (sort (map fst reqBlocks))
          (headers, Map.empty, fold CacheHeader headers st) = Inr (pool', kbr', st')
    \<and> pool' = headers @ map Header (filter allParents (map snd (resolutionPass reqBlocks headers)))
    \<and> VerifyHeaderResponses st' =
        VerifyHeaderResponses st @
          fst (passResults srv (rev headers @ Cache st) (map snd (resolutionPass reqBlocks headers)))
    \<and> (\<forall>j < length (resolutionPass reqBlocks headers). \<forall>i < j.
          allParents (snd (resolutionPass reqBlocks headers ! i)) \<longrightarrow>
            Number (Header (snd (resolutionPass reqBlocks headers ! i)))
              < Number (Header (snd (resolutionPass reqBlocks headers ! j)))
          \<and> Header (snd (resolutionPass reqBlocks headers ! i))
              \<in> set (fst (resolutionPass reqBlocks headers ! j))
          \<and> (inWindow (snd (resolutionPass reqBlocks headers ! j))
                 (Header (snd (resolutionPass reqBlocks headers ! i))) \<longrightarrow>
               Hash (Header (snd (resolutionPass reqBlocks headers ! i)))
                 \<in> Hash ` set (KnownParents (snd (resolutionPass reqBlocks headers ! j)))))"
proof -
  let ?es = "entriesAscending reqBlocks"
  let ?pass = "resolutionPass reqBlocks headers"
  from VerifyRequestsCommonAncestor_refines [OF assms, of srv] obtain kbr' st' where
    c1: "VerifyRequestsCommonAncestor srv reqID headers st = Inr st'"
    and c2: "commonAncestorLoop srv reqID (sort (map fst reqBlocks))
          (headers, Map.empty, fold CacheHeader headers st) =
        Inr (headers @ map Header (filter allParents (map snd ?pass)), kbr', st')"
    and c3: "VerifyHeaderResponses st' =
        VerifyHeaderResponses st @ fst (passResults srv (rev headers @ Cache st) (map snd ?pass))"
    by blast
  note ea = entriesAscending_props [OF assms(3)]
  have len: "length ?pass = length ?es" by (simp add: resolutionPass_def)
  have cw0: "creditedWithin Map.empty {}" by (simp add: creditedWithin_def)
  have comp: "\<forall>(offered, r) \<in> set ?pass.
           \<forall>p \<in> set offered. inWindow r p \<longrightarrow> Hash p \<in> Hash ` set (KnownParents r)"
    unfolding resolutionPass_def by (rule foldPass_complete [OF cw0 ea(3)]) simp
  have hdr: "Header (snd (?pass ! i)) = Header (?es ! i)" if "i < length ?es" for i
    using foldPass_entries [OF that, of headers Map.empty] by (auto simp: resolutionPass_def)
  have c4: "\<forall>j < length ?pass. \<forall>i < j.
          allParents (snd (?pass ! i)) \<longrightarrow>
            Number (Header (snd (?pass ! i))) < Number (Header (snd (?pass ! j)))
          \<and> Header (snd (?pass ! i)) \<in> set (fst (?pass ! j))
          \<and> (inWindow (snd (?pass ! j)) (Header (snd (?pass ! i))) \<longrightarrow>
               Hash (Header (snd (?pass ! i))) \<in> Hash ` set (KnownParents (snd (?pass ! j))))"
  proof (intro allI impI)
    fix j i assume j: "j < length ?pass" and ij: "i < j" and att: "allParents (snd (?pass ! i))"
    from j len have je: "j < length ?es" by simp
    with ij have ie: "i < length ?es" by simp
    have lt: "Number (Header (snd (?pass ! i))) < Number (Header (snd (?pass ! j)))"
    proof -
      from ea(2,3) have sw: "sorted_wrt (<) (map (Number \<circ> Header) ?es)"
        by (simp add: strict_sorted_iff)
      have jl: "j < length (map (Number \<circ> Header) ?es)" using je by simp
      from sorted_wrt_nth_less [OF sw ij jl]
      have "map (Number \<circ> Header) ?es ! i < map (Number \<circ> Header) ?es ! j" .
      then show ?thesis using hdr [OF ie] hdr [OF je] ie je by simp
    qed
    have pj: "fst (?pass ! j) = headers @ map Header (filter allParents (map snd (take j ?pass)))"
      using foldPass_pools [OF je, of headers Map.empty] by (simp add: resolutionPass_def)
    have "?pass ! i \<in> set (take j ?pass)"
      using ij j by (metis in_set_conv_nth length_take min.absorb2 nat_less_le nth_take)
    with att have mem: "Header (snd (?pass ! i)) \<in> set (fst (?pass ! j))"
      unfolding pj by auto
    have "(fst (?pass ! j), snd (?pass ! j)) \<in> set ?pass" using j by simp
    with comp mem have "inWindow (snd (?pass ! j)) (Header (snd (?pass ! i))) \<longrightarrow>
               Hash (Header (snd (?pass ! i))) \<in> Hash ` set (KnownParents (snd (?pass ! j)))"
      by blast
    with lt mem show "Number (Header (snd (?pass ! i))) < Number (Header (snd (?pass ! j)))
          \<and> Header (snd (?pass ! i)) \<in> set (fst (?pass ! j))
          \<and> (inWindow (snd (?pass ! j)) (Header (snd (?pass ! i))) \<longrightarrow>
               Hash (Header (snd (?pass ! i))) \<in> Hash ` set (KnownParents (snd (?pass ! j))))"
      by simp
  qed
  from c1 c2 c3 c4 show ?thesis by blast
qed

theorem C9_attempted_header_joins_pool_witness:
  "VerifyRequestsCommonAncestor (engine needs1 (Some (External 7))) 1 [chainHeader 9] laterNeedsEarlier =
     Inr \<lparr>Cache = [chainHeader 9],
          ProcessingRequests =
            [(1, [(10, \<lparr>ID = 1, Header = chainHeader 10, Seal = True, Deadline = 1000,
                         KnownParents = [chainHeader 9], ParentsExpected = 1,
                         From = 9, To = 9\<rparr>),
                  (11, \<lparr>ID = 1, Header = chainHeader 11, Seal = True, Deadline = 1000,
                         KnownParents = [chainHeader 9, chainHeader 10], ParentsExpected = 2,
                         From = 9, To = 10\<rparr>)])],
          VerifyHeaderResponses =
            [\<lparr>respID = 1, respHash = 110, respErr = Some (External 7)\<rparr>,
             \<lparr>respID = 1, respHash = 111, respErr = Some (External 7)\<rparr>],
          HeadersRequests = [], Logged = [],
          CleanupCh = [\<lparr>ReqID = 1, BlockNumber = 10\<rparr>, \<lparr>ReqID = 1, BlockNumber = 11\<rparr>],
          CleanupChCap = 2\<rparr>
   \<and> map fst (resolutionPass
        [(10, toVerifyRequest 1 (chainHeader 10) True 1000 [] 1),
         (11, toVerifyRequest 1 (chainHeader 11) True 1000 [] 2)] [chainHeader 9]) =
       [[chainHeader 9], [chainHeader 9, chainHeader 10]]"
proof -
  have h1: "[chainHeader 9] \<noteq> []" by simp
  have h2: "map_of (ProcessingRequests laterNeedsEarlier) 1 =
              Some [(10, toVerifyRequest 1 (chainHeader 10) True 1000 [] 1),
                    (11, toVerifyRequest 1 (chainHeader 11) True 1000 [] 2)]"
    by (simp add: laterNeedsEarlier_def emptyState_def)
  have h3: "wfBlocks 1 [(10, toVerifyRequest 1 (chainHeader 10) True 1000 [] 1),
                        (11, toVerifyRequest 1 (chainHeader 11) True 1000 [] 2)]"
    by (simp add: wfBlocks_def toVerifyRequest_def chainHeader_def)
  have e: "VerifyRequestsCommonAncestor (engine needs1 (Some (External 7))) 1 [chainHeader 9] laterNeedsEarlier =
     Inr \<lparr>Cache = [chainHeader 9],
          ProcessingRequests =
            [(1, [(10, \<lparr>ID = 1, Header = chainHeader 10, Seal = True, Deadline = 1000,
                         KnownParents = [chainHeader 9], ParentsExpected = 1,
                         From = 9, To = 9\<rparr>),
                  (11, \<lparr>ID = 1, Header = chainHeader 11, Seal = True, Deadline = 1000,
                         KnownParents = [chainHeader 9, chainHeader 10], ParentsExpected = 2,
                         From = 9, To = 10\<rparr>)])],
          VerifyHeaderResponses =
            [\<lparr>respID = 1, respHash = 110, respErr = Some (External 7)\<rparr>,
             \<lparr>respID = 1, respHash = 111, respErr = Some (External 7)\<rparr>],
          HeadersRequests = [], Logged = [],
          CleanupCh = [\<lparr>ReqID = 1, BlockNumber = 10\<rparr>, \<lparr>ReqID = 1, BlockNumber = 11\<rparr>],
          CleanupChCap = 2\<rparr>"
    by code_simp
  have p: "map fst (resolutionPass
        [(10, toVerifyRequest 1 (chainHeader 10) True 1000 [] 1),
         (11, toVerifyRequest 1 (chainHeader 11) True 1000 [] 2)] [chainHeader 9]) =
       [[chainHeader 9], [chainHeader 9, chainHeader 10]]"
    by code_simp
  from C9_attempted_header_joins_pool [OF h1 h2 h3, of "engine needs1 (Some (External 7))"] e p
  show ?thesis by simp
qed

subsection \<open>Folding an ancestor twice\<close>

lemma appendAncestors_second_entry_duplicates:
  "appendAncestors
     \<lparr>ID = 1, Header = chainHeader 11, Seal = True, Deadline = 1000,
      KnownParents = [chainHeader 10, chainHeader 9], ParentsExpected = 3, From = 8, To = 9\<rparr>
     [chainHeader 9] [1 \<mapsto> [109 \<mapsto> {10}]]
   = (\<lparr>ID = 1, Header = chainHeader 11, Seal = True, Deadline = 1000,
       KnownParents = [chainHeader 10, chainHeader 9, chainHeader 9], ParentsExpected = 3,
       From = 8, To = 9\<rparr>,
      [1 \<mapsto> [109 \<mapsto> {11}]])"
  by (simp add: appendAncestors_def chainHeader_def)

text \<open>
  C7. The claim: folding the same ancestor into an entry more than once never duplicates
  it, and the known parents never outnumber the expected ones. The dedup index is kept
  per request id and is filled from the known parents of the first entry of a pass
  only; the other entries of the pass are tested against the parents of the first. In
  the run below block 10 needs two parents and block 11 three (block 10, from the
  batch, and blocks 9 and 8). The fetch delivers block 9 alone, then blocks 9 and 8.
  In the second pass block 10 is verified (its entry stays in the registry until the
  cleanup loop takes its removal from \<^verbatim>\<open>CleanupCh\<close>), and block 9 is folded into the
  entry of block 11 again: its known parents end as blocks 10, 9, 9, 8, four where three
  are expected, and the entry is never verified.
\<close>

theorem C7_ancestor_folded_twice:
  "eventLoop (engine needs2At10 None)
     [(0, VerifyHeaderRequests (batch 1 [10, 11] 1000)),
      (1, HeaderResponses (fetched 1 [9])),
      (2, HeaderResponses (fetched 1 [9, 8]))] emptyState
   = Some (Inr
       \<lparr>Cache = [chainHeader 10, chainHeader 8, chainHeader 9, chainHeader 9],
        ProcessingRequests =
          [(1, [(10, \<lparr>ID = 1, Header = chainHeader 10, Seal = True, Deadline = 1000,
                       KnownParents = [chainHeader 9, chainHeader 8],
                       ParentsExpected = 2, From = 8, To = 9\<rparr>),
                (11, \<lparr>ID = 1, Header = chainHeader 11, Seal = True, Deadline = 1000,
                       KnownParents = [chainHeader 10, chainHeader 9, chainHeader 9, chainHeader 8],
                       ParentsExpected = 3, From = 8, To = 9\<rparr>)])],
        VerifyHeaderResponses = [\<lparr>respID = 1, respHash = 110, respErr = None\<rparr>],
        HeadersRequests =
          [\<lparr>hrID = 1, HighestHash = 109, HighestBlockNumber = 9, hrNumber = 2\<rparr>],
        Logged = [], CleanupCh = [\<lparr>ReqID = 1, BlockNumber = 10\<rparr>], CleanupChCap = 1\<rparr>)"
  by code_simp


subsection \<open>The registry stays well formed\<close>

text \<open>
  A registry is well formed when its request ids are distinct, no inner map is empty,
  the block numbers of an inner map are distinct, and every request is filed under its
  own id and the number of its header. This holds in every state that a run reaches
  from the empty state: each handler keeps it.
\<close>

lemma set_update_cases:
  "(a, b) \<in> set (AList.update k v al) \<Longrightarrow> (a, b) = (k, v) \<or> (a, b) \<in> set al"
  by (induction al) (auto split: if_splits)

lemma set_delete_subset: "set (AList.delete k al) \<subseteq> set al"
  by (auto simp: AList.delete_eq)

lemma wfBlocks_update:
  assumes "wfBlocks i bs" and "ID r = i" and "Number (Header r) = n"
  shows "wfBlocks i (AList.update n r bs)"
proof -
  from assms(1) have "distinct (map fst (AList.update n r bs))"
    by (simp add: wfBlocks_def AList.distinct_update)
  moreover have "list_all (\<lambda>(n, req). ID req = i \<and> Number (Header req) = n) (AList.update n r bs)"
    using assms by (auto simp: wfBlocks_def list_all_iff dest!: set_update_cases)
  ultimately show ?thesis by (simp add: wfBlocks_def)
qed

lemma wfBlocks_delete:
  assumes "wfBlocks i bs"
  shows "wfBlocks i (AList.delete n bs)"
proof -
  from assms have "distinct (map fst (AList.delete n bs))"
    by (simp add: wfBlocks_def AList.distinct_delete)
  moreover have "list_all (\<lambda>(n, req). ID req = i \<and> Number (Header req) = n) (AList.delete n bs)"
    using assms set_delete_subset [of n bs] by (auto simp: wfBlocks_def list_all_iff)
  ultimately show ?thesis by (simp add: wfBlocks_def)
qed

lemma wfBlocks_single:
  "ID r = i \<Longrightarrow> Number (Header r) = n \<Longrightarrow> wfBlocks i [(n, r)]"
  by (simp add: wfBlocks_def)

lemma wfRegistry_update:
  assumes "wfRegistry reg" and "bs \<noteq> []" and "wfBlocks i bs"
  shows "wfRegistry (AList.update i bs reg)"
proof -
  from assms(1) have "distinct (map fst (AList.update i bs reg))"
    by (simp add: wfRegistry_def AList.distinct_update)
  moreover have "list_all (\<lambda>(reqID, reqBlocks). reqBlocks \<noteq> [] \<and> wfBlocks reqID reqBlocks)
                   (AList.update i bs reg)"
    using assms by (auto simp: wfRegistry_def list_all_iff dest!: set_update_cases)
  ultimately show ?thesis by (simp add: wfRegistry_def)
qed

lemma wfRegistry_delete:
  assumes "wfRegistry reg"
  shows "wfRegistry (AList.delete i reg)"
proof -
  from assms have "distinct (map fst (AList.delete i reg))"
    by (simp add: wfRegistry_def AList.distinct_delete)
  moreover have "list_all (\<lambda>(reqID, reqBlocks). reqBlocks \<noteq> [] \<and> wfBlocks reqID reqBlocks)
                   (AList.delete i reg)"
    using assms set_delete_subset [of i reg] by (auto simp: wfRegistry_def list_all_iff)
  ultimately show ?thesis by (simp add: wfRegistry_def)
qed

lemma wfRegistry_filter: "wfRegistry reg \<Longrightarrow> wfRegistry (filter P reg)"
  by (auto simp: wfRegistry_def distinct_map_filter list_all_iff)

lemma wfRegistry_lookup:
  "wfRegistry reg \<Longrightarrow> map_of reg i = Some bs \<Longrightarrow> bs \<noteq> [] \<and> wfBlocks i bs"
  by (auto simp: wfRegistry_def list_all_iff dest!: map_of_SomeD)

lemma wfRegistry_cleanupRequest:
  assumes "wfRegistry (ProcessingRequests st)"
  shows "wfRegistry (ProcessingRequests (cleanupRequest i n st))"
proof (cases "map_of (ProcessingRequests st) i")
  case None
  with assms show ?thesis by (simp add: cleanupRequest_def)
next
  case (Some bs)
  from wfRegistry_lookup [OF assms Some] have "wfBlocks i (AList.delete n bs)"
    by (simp add: wfBlocks_delete)
  with assms Some show ?thesis
    by (simp add: cleanupRequest_def Let_def wfRegistry_delete wfRegistry_update)
qed

lemma wfRegistry_verifyByRequest:
  "wfRegistry (ProcessingRequests st) \<Longrightarrow>
     wfRegistry (ProcessingRequests (snd (verifyByRequest srv i h s pe kp st)))"
  by (simp add: verifyByRequest_def Let_def wfRegistry_cleanupRequest sendResponse_def CacheHeader_def)

lemma wfRegistry_onFinishedRequest:
  "wfRegistry (ProcessingRequests st) \<Longrightarrow> wfRegistry (ProcessingRequests (onFinishedRequest st))"
proof (cases "CleanupCh st")
  case Nil
  assume "wfRegistry (ProcessingRequests st)"
  with Nil show ?thesis by (simp add: onFinishedRequest_def)
next
  case (Cons req rest)
  assume "wfRegistry (ProcessingRequests st)"
  then have "wfRegistry (ProcessingRequests (st\<lparr>CleanupCh := rest\<rparr>))" by simp
  from wfRegistry_cleanupRequest [OF this] Cons show ?thesis by (simp add: onFinishedRequest_def)
qed

lemma wfRegistry_addVerifyHeaderRequest:
  assumes "wfRegistry (ProcessingRequests st)"
  shows "wfRegistry (ProcessingRequests (addVerifyHeaderRequest i h s d kp pe st))"
proof -
  let ?r = "toVerifyRequest i h s d kp pe"
  have r: "ID ?r = i" "Number (Header ?r) = Number h" by (simp_all add: toVerifyRequest_def)
  show ?thesis
  proof (cases "map_of (ProcessingRequests st) i")
    case None
    with assms wfBlocks_single [OF r] show ?thesis
      by (simp add: addVerifyHeaderRequest_def Let_def wfRegistry_update)
  next
    case (Some bs)
    from wfRegistry_lookup [OF assms Some] have "wfBlocks i (AList.update (Number h) ?r bs)"
      using r by (intro wfBlocks_update) auto
    with assms Some show ?thesis
      by (simp add: addVerifyHeaderRequest_def Let_def wfRegistry_update)
  qed
qed

lemma wfRegistry_cleanup:
  "wfRegistry (ProcessingRequests st) \<Longrightarrow> wfRegistry (ProcessingRequests (cleanup now st))"
  by (simp add: cleanup_def cleanupLoop_registry wfRegistry_filter)

lemma wfRegistry_commonAncestorStep:
  assumes "wfRegistry (ProcessingRequests st)"
    and "commonAncestorStep srv reqID num (pool, kbr, st) = Inr (pool', kbr', st')"
  shows "wfRegistry (ProcessingRequests st')"
proof -
  from assms(2) obtain reqHeaders req0 where
    l: "map_of (ProcessingRequests st) reqID = Some reqHeaders" "map_of reqHeaders num = Some req0"
    by (auto simp: commonAncestorStep_def split: option.splits)
  obtain req kbr1 where a: "appendAncestors req0 pool kbr = (req, kbr1)"
    by (cases "appendAncestors req0 pool kbr")
  note k = appendAncestors_keeps [OF a]
  from wfRegistry_lookup [OF assms(1) l(1)] have w: "wfBlocks reqID reqHeaders" by simp
  with l(2) have "ID req0 = reqID \<and> Number (Header req0) = num"
    by (auto simp: wfBlocks_def list_all_iff dest!: map_of_SomeD)
  with k w have "wfBlocks reqID (AList.update num req reqHeaders)"
    by (intro wfBlocks_update) auto
  with assms(1) have w1: "wfRegistry (AList.update reqID (AList.update num req reqHeaders) (ProcessingRequests st))"
    by (intro wfRegistry_update) auto
  let ?st1 = "st\<lparr>ProcessingRequests :=
                   AList.update reqID (AList.update num req reqHeaders) (ProcessingRequests st)\<rparr>"
  from w1 have "wfRegistry (ProcessingRequests ?st1)" by simp
  from wfRegistry_verifyByRequest [OF this, of srv "ID req" "Header req" "Seal req" "ParentsExpected req" "KnownParents req"]
  show ?thesis using assms(2) l a
    by (auto simp: commonAncestorStep_def split: prod.splits)
qed

lemma wfRegistry_commonAncestorLoop:
  "wfRegistry (ProcessingRequests (snd (snd s))) \<Longrightarrow>
     commonAncestorLoop srv reqID nums s = Inr s' \<Longrightarrow>
     wfRegistry (ProcessingRequests (snd (snd s')))"
proof (induction nums arbitrary: s)
  case Nil
  then show ?case by simp
next
  case (Cons num nums)
  from Cons.prems(2) obtain s1 where
    s: "commonAncestorStep srv reqID num s = Inr s1" and l: "commonAncestorLoop srv reqID nums s1 = Inr s'"
    by (auto split: sum.splits)
  obtain pool kbr st where [simp]: "s = (pool, kbr, st)" by (cases s)
  obtain pool1 kbr1 st1 where [simp]: "s1 = (pool1, kbr1, st1)" by (cases s1)
  from wfRegistry_commonAncestorStep [of st srv reqID num pool kbr pool1 kbr1 st1] Cons.prems(1) s
  have "wfRegistry (ProcessingRequests (snd (snd s1)))" by simp
  from Cons.IH [OF this l] show ?case .
qed

lemma wfRegistry_onHeaderResponse:
  assumes "wfRegistry (ProcessingRequests st)" and "onHeaderResponse srv parentResp st = Inr st'"
  shows "wfRegistry (ProcessingRequests st')"
proof (cases "hErr parentResp")
  case (Some e)
  with assms show ?thesis
    by (auto simp: onHeaderResponse_def sendResponse_def wfRegistry_delete)
next
  case None
  show ?thesis
  proof (cases "hHeaders parentResp = []")
    case True
    with None assms show ?thesis
      by (simp add: onHeaderResponse_def VerifyRequestsCommonAncestor_def)
  next
    case False
    show ?thesis
    proof (cases "map_of (ProcessingRequests st) (hID parentResp)")
      case None': None
      with None assms show ?thesis
        by (simp add: onHeaderResponse_def VerifyRequestsCommonAncestor_absent)
    next
      case (Some reqHeaders)
      from assms(2) None Some False obtain pool kbr where
        "commonAncestorLoop srv (hID parentResp) (sort (map fst reqHeaders))
           (hHeaders parentResp, Map.empty, fold CacheHeader (hHeaders parentResp) st) = Inr (pool, kbr, st')"
        by (auto simp: onHeaderResponse_def VerifyRequestsCommonAncestor_def Let_def split: sum.splits)
      from wfRegistry_commonAncestorLoop [OF _ this] assms(1) show ?thesis
        by (simp add: fold_CacheHeader)
    qed
  qed
qed

lemma wfRegistry_verifyHeaders:
  "wfRegistry (ProcessingRequests st) \<Longrightarrow>
     verifyHeaders srv reqID deadline reqHeaders items reqs st = Some (Inr (b, reqs', st')) \<Longrightarrow>
     wfRegistry (ProcessingRequests st')"
proof (induction srv reqID deadline reqHeaders items reqs st rule: verifyHeaders.induct)
  case (1 srv reqID deadline reqHeaders ancestorsReqs st)
  then show ?case by simp
next
  case (2 srv reqID deadline reqHeaders seal rest ancestorsReqs st)
  then show ?case by (auto simp: sendResponse_def)
next
  case (3 srv reqID deadline reqHeaders header seal rest ancestorsReqs st)
  show ?case
  proof (cases "GetCachedHeader (Cache st) (Hash header) (Number header)")
    case (Some h)
    with "3.prems" "3.IH"(2) [OF Some] show ?thesis by (simp add: sendResponse_def)
  next
    case None
    from "3.prems"(2) None obtain kps ptv areq where
      r: "requestParentHeaders srv (Cache st) reqID header reqHeaders = Some (Inr (kps, ptv, areq))"
      by (auto split: option.splits sum.splits)
    obtain err st1 where v: "verifyByRequest srv reqID header seal ptv kps st = (err, st1)"
      by (cases "verifyByRequest srv reqID header seal ptv kps st")
    let ?reqs = "case areq of None \<Rightarrow> ancestorsReqs | Some r \<Rightarrow> ancestorsReqs @ [r]"
    let ?st2 = "if err = Some errNotAllParents
                then addVerifyHeaderRequest reqID header seal deadline kps ptv st1 else st1"
    from wfRegistry_verifyByRequest [OF "3.prems"(1), of srv reqID header seal ptv kps] v
    have "wfRegistry (ProcessingRequests st1)" by simp
    then have w2: "wfRegistry (ProcessingRequests ?st2)"
      by (simp add: wfRegistry_addVerifyHeaderRequest)
    from "3.prems"(2) None r v
    have l: "verifyHeaders srv reqID deadline reqHeaders rest ?reqs ?st2 = Some (Inr (b, reqs', st'))"
      by (simp add: Let_def)
    from "3.IH"(1) [OF None r refl refl refl refl refl v [symmetric] refl w2 l] show ?thesis .
  qed
qed

lemma wfRegistry_onVerifyHeaderRequest:
  assumes "wfRegistry (ProcessingRequests st)"
    and "onVerifyHeaderRequest srv now req st = Some (Inr st')"
  shows "wfRegistry (ProcessingRequests st')"
  using assms
  by (auto simp: onVerifyHeaderRequest_def Let_def sendResponse_def
           split: if_splits option.splits sum.splits bool.splits prod.splits
           dest: wfRegistry_verifyHeaders)

lemma wfRegistry_eventLoop:
  "wfRegistry (ProcessingRequests st) \<Longrightarrow> eventLoop srv evs st = Some (Inr st') \<Longrightarrow>
     wfRegistry (ProcessingRequests st')"
proof (induction srv evs st rule: eventLoop.induct)
  case (1 srv st)
  then show ?case by simp
next
  case (2 srv now req evs st)
  then show ?case
    by (auto split: option.splits sum.splits dest: wfRegistry_onVerifyHeaderRequest)
next
  case (3 srv now parentResp evs st)
  then show ?case
    by (auto split: sum.splits dest: wfRegistry_onHeaderResponse)
next
  case (4 srv now evs st)
  then show ?case by (simp add: wfRegistry_cleanup)
next
  case (5 srv now evs st)
  then show ?case by (simp add: wfRegistry_onFinishedRequest)
qed

lemma wfRegistry_emptyState: "wfRegistry (ProcessingRequests emptyState)"
  by (simp add: emptyState_def wfRegistry_def)


subsection \<open>After a timeout\<close>

lemma absent_iff:
  assumes "wfRegistry (ProcessingRequests st)"
  shows "(map_of (ProcessingRequests st) j = None) = (\<forall>n. pending st j n = None)"
proof
  assume "map_of (ProcessingRequests st) j = None"
  then show "\<forall>n. pending st j n = None" by (simp add: pending_def)
next
  assume a: "\<forall>n. pending st j n = None"
  show "map_of (ProcessingRequests st) j = None"
  proof (cases "map_of (ProcessingRequests st) j")
    case None
    then show ?thesis .
  next
    case (Some bs)
    from wfRegistry_lookup [OF assms Some] have ne: "bs \<noteq> []" and d: "distinct (map fst bs)"
      by (simp_all add: wfBlocks_def)
    from ne obtain n r where "(n, r) \<in> set bs" by (cases bs) auto
    with d have "map_of bs n = Some r" by simp
    with Some have "pending st j n = Some r" by (simp add: pending_def)
    with a show ?thesis by simp
  qed
qed

lemma sweepResponses_absent:
  "j \<notin> fst ` set registry \<Longrightarrow> filter (\<lambda>r. respID r = j) (sweepResponses now registry) = []"
  by (induction registry)
     (auto simp: sweepResponses_def expiredResponses_def timeoutResponse_def filter_map o_def)

lemma cleanup_absent:
  assumes "map_of (ProcessingRequests st) j = None"
  shows "map_of (ProcessingRequests (cleanup now st)) j = None"
    and "VerifyHeaderResponses (cleanup now st) =
           VerifyHeaderResponses st @ sweepResponses now (ProcessingRequests st)"
    and "filter (\<lambda>r. respID r = j) (sweepResponses now (ProcessingRequests st)) = []"
proof -
  from assms have n: "j \<notin> fst ` set (ProcessingRequests st)" by (simp add: map_of_eq_None_iff)
  then show "map_of (ProcessingRequests (cleanup now st)) j = None"
    by (auto simp: cleanup_def cleanupLoop_registry map_of_eq_None_iff)
  show "VerifyHeaderResponses (cleanup now st) =
           VerifyHeaderResponses st @ sweepResponses now (ProcessingRequests st)"
    by (simp add: cleanup_def cleanupLoop_responses)
  from n show "filter (\<lambda>r. respID r = j) (sweepResponses now (ProcessingRequests st)) = []"
    by (rule sweepResponses_absent)
qed

lemma cleanupRequest_absent:
  "map_of (ProcessingRequests st) j = None \<Longrightarrow>
     map_of (ProcessingRequests (cleanupRequest i n st)) j = None"
  by (cases "i = j")
     (auto simp: cleanupRequest_def Let_def AList.update_conv' AList.delete_conv' split: option.splits)

lemma onFinishedRequest_absent:
  assumes "map_of (ProcessingRequests st) j = None"
  shows "map_of (ProcessingRequests (onFinishedRequest st)) j = None"
    and "VerifyHeaderResponses (onFinishedRequest st) = VerifyHeaderResponses st"
proof -
  show "map_of (ProcessingRequests (onFinishedRequest st)) j = None"
  proof (cases "CleanupCh st")
    case Nil
    with assms show ?thesis by (simp add: onFinishedRequest_def)
  next
    case (Cons req rest)
    from assms have "map_of (ProcessingRequests (st\<lparr>CleanupCh := rest\<rparr>)) j = None" by simp
    from cleanupRequest_absent [OF this] Cons show ?thesis by (simp add: onFinishedRequest_def)
  qed
  show "VerifyHeaderResponses (onFinishedRequest st) = VerifyHeaderResponses st"
    by (cases "CleanupCh st") (simp_all add: onFinishedRequest_def)
qed

lemma foldPass_ids: "(p, r) \<in> set (foldPass es pool kbr) \<Longrightarrow> ID r \<in> ID ` set es"
proof (induction es arbitrary: pool kbr)
  case Nil
  then show ?case by simp
next
  case (Cons req0 rest)
  obtain req kbr1 where a: "appendAncestors req0 pool kbr = (req, kbr1)"
    by (cases "appendAncestors req0 pool kbr")
  from appendAncestors_keeps [OF a] have i: "ID req = ID req0" by simp
  from Cons.prems a have "(p, r) = (pool, req)
      \<or> (p, r) \<in> set (foldPass rest (if allParents req then pool @ [Header req] else pool) kbr1)"
    by simp
  then show ?case
  proof
    assume "(p, r) = (pool, req)"
    with i show ?thesis by simp
  next
    assume "(p, r) \<in> set (foldPass rest (if allParents req then pool @ [Header req] else pool) kbr1)"
    from Cons.IH [OF this] show ?thesis by simp
  qed
qed

lemma onHeaderResponse_returns:
  assumes "wfRegistry (ProcessingRequests st)"
  shows "\<exists>st'. onHeaderResponse srv parentResp st = Inr st'"
proof (cases "hErr parentResp")
  case (Some e)
  then show ?thesis by (simp add: onHeaderResponse_def)
next
  case None
  show ?thesis
  proof (cases "hHeaders parentResp = []")
    case True
    with None show ?thesis by (simp add: onHeaderResponse_def VerifyRequestsCommonAncestor_def)
  next
    case False
    show ?thesis
    proof (cases "map_of (ProcessingRequests st) (hID parentResp)")
      case None': None
      with None show ?thesis by (simp add: onHeaderResponse_def VerifyRequestsCommonAncestor_absent)
    next
      case (Some reqBlocks)
      from wfRegistry_lookup [OF assms Some] have "wfBlocks (hID parentResp) reqBlocks" by simp
      from VerifyRequestsCommonAncestor_refines [OF False Some this, of srv] None
      show ?thesis by (auto simp: onHeaderResponse_def)
    qed
  qed
qed

lemma onHeaderResponse_absent:
  assumes wf: "wfRegistry (ProcessingRequests st)"
    and ab: "map_of (ProcessingRequests st) j = None"
    and ret: "onHeaderResponse srv parentResp st = Inr st'"
  shows "map_of (ProcessingRequests st') j = None"
    and "\<exists>news. VerifyHeaderResponses st' = VerifyHeaderResponses st @ news
           \<and> filter (\<lambda>r. respID r = j) news = failureNotices j [(now, HeaderResponses parentResp)]"
proof -
  have "map_of (ProcessingRequests st') j = None
      \<and> (\<exists>news. VerifyHeaderResponses st' = VerifyHeaderResponses st @ news
           \<and> filter (\<lambda>r. respID r = j) news = failureNotices j [(now, HeaderResponses parentResp)])"
  proof (cases "hErr parentResp")
    case (Some e)
    with ret have s: "st' = (sendResponse (hID parentResp) (hHash parentResp) (Some e) st)
                 \<lparr>ProcessingRequests := AList.delete (hID parentResp) (ProcessingRequests st)\<rparr>"
      by (simp add: onHeaderResponse_def)
    have "map_of (ProcessingRequests st') j = None"
      using ab by (simp add: s AList.delete_conv')
    moreover have "VerifyHeaderResponses st' =
        VerifyHeaderResponses st @
          [\<lparr>respID = hID parentResp, respHash = hHash parentResp, respErr = Some e\<rparr>]"
      by (simp add: s sendResponse_def)
    ultimately show ?thesis using Some by simp
  next
    case None
    show ?thesis
    proof (cases "hHeaders parentResp = [] \<or> map_of (ProcessingRequests st) (hID parentResp) = None")
      case True
      with None ret have "st' = st"
        by (auto simp: onHeaderResponse_def VerifyRequestsCommonAncestor_def split: if_splits)
      with ab None show ?thesis by simp
    next
      case False
      then obtain reqBlocks where ne: "hHeaders parentResp \<noteq> []"
        and l: "map_of (ProcessingRequests st) (hID parentResp) = Some reqBlocks" by auto
      from l ab have ij: "hID parentResp \<noteq> j" by auto
      from wfRegistry_lookup [OF wf l] have w: "wfBlocks (hID parentResp) reqBlocks" by simp
      let ?pass = "resolutionPass reqBlocks (hHeaders parentResp)"
      let ?news = "fst (passResults srv (rev (hHeaders parentResp) @ Cache st) (map snd ?pass))"
      from VerifyRequestsCommonAncestor_refines [OF ne l w, of srv] None ret
      have r: "VerifyHeaderResponses st' = VerifyHeaderResponses st @ ?news"
        and f: "\<forall>i n. \<not> (i = hID parentResp \<and> n \<in> fst ` set reqBlocks) \<longrightarrow>
                  pending st' i n = pending st i n"
        by (auto simp: onHeaderResponse_def)
      have ids: "respID x = hID parentResp" if "x \<in> set ?news" for x
      proof -
        from passResults_ids [OF that] obtain p r where
          "(p, r) \<in> set ?pass" "respID x = ID r" by auto
        with foldPass_ids [of p r "entriesAscending reqBlocks" "hHeaders parentResp" Map.empty]
        have "respID x \<in> ID ` set (entriesAscending reqBlocks)"
          by (simp add: resolutionPass_def)
        with entriesAscending_props(5) [OF w] show ?thesis by auto
      qed
      have fl: "filter (\<lambda>r. respID r = j) ?news = []"
        using ids ij by (auto simp: filter_empty_conv)
      from wfRegistry_onHeaderResponse [OF wf ret] have wf': "wfRegistry (ProcessingRequests st')" .
      have "\<forall>n. pending st' j n = None"
        using f ij ab by (simp add: pending_def)
      then have "map_of (ProcessingRequests st') j = None"
        using absent_iff [OF wf'] by simp
      with r fl None show ?thesis by simp
    qed
  qed
  then show "map_of (ProcessingRequests st') j = None"
    and "\<exists>news. VerifyHeaderResponses st' = VerifyHeaderResponses st @ news
           \<and> filter (\<lambda>r. respID r = j) news = failureNotices j [(now, HeaderResponses parentResp)]"
    by simp_all
qed

lemma pending_addVerifyHeaderRequest:
  "pending (addVerifyHeaderRequest i h s d kp pe st) i' n =
     (if i' = i \<and> n = Number h then Some (toVerifyRequest i h s d kp pe) else pending st i' n)"
  by (cases "map_of (ProcessingRequests st) i")
     (auto simp: pending_def addVerifyHeaderRequest_def Let_def AList.update_conv')

lemma addVerifyHeaderRequest_rest [simp]:
  "VerifyHeaderResponses (addVerifyHeaderRequest i h s d kp pe st) = VerifyHeaderResponses st"
  "Cache (addVerifyHeaderRequest i h s d kp pe st) = Cache st"
  "CleanupCh (addVerifyHeaderRequest i h s d kp pe st) = CleanupCh st"
  "CleanupChCap (addVerifyHeaderRequest i h s d kp pe st) = CleanupChCap st"
  by (simp_all add: addVerifyHeaderRequest_def Let_def)

lemma verifyByRequest_responses:
  "\<exists>news. VerifyHeaderResponses (snd (verifyByRequest srv reqID header seal pe kps st)) =
            VerifyHeaderResponses st @ news
        \<and> (\<forall>r \<in> set news. respID r = reqID)"
  by (simp add: verifyByRequest_def Let_def sendResponse_def CacheHeader_def)

lemma verifyHeaders_other:
  assumes "verifyHeaders srv reqID deadline reqHeaders items reqs st = Some (Inr (b, reqs', st'))"
  shows "(\<exists>news. VerifyHeaderResponses st' = VerifyHeaderResponses st @ news
            \<and> (\<forall>r \<in> set news. respID r = reqID))
       \<and> (\<forall>i n. i \<noteq> reqID \<longrightarrow> pending st' i n = pending st i n)"
  using assms
proof (induction srv reqID deadline reqHeaders items reqs st rule: verifyHeaders.induct)
  case (1 srv reqID deadline reqHeaders ancestorsReqs st)
  then show ?case by simp
next
  case (2 srv reqID deadline reqHeaders seal rest ancestorsReqs st)
  then show ?case by (auto simp: sendResponse_def pending_def)
next
  case (3 srv reqID deadline reqHeaders header seal rest ancestorsReqs st)
  show ?case
  proof (cases "GetCachedHeader (Cache st) (Hash header) (Number header)")
    case (Some h)
    let ?st1 = "sendResponse reqID (Hash header) None st"
    from "3.prems" Some
    have l: "verifyHeaders srv reqID deadline reqHeaders rest ancestorsReqs ?st1 = Some (Inr (b, reqs', st'))"
      by simp
    from "3.IH"(2) [OF Some l] obtain news where
      "VerifyHeaderResponses st' = VerifyHeaderResponses ?st1 @ news"
      "\<forall>r \<in> set news. respID r = reqID"
      and f: "\<forall>i n. i \<noteq> reqID \<longrightarrow> pending st' i n = pending ?st1 i n" by blast
    then have "VerifyHeaderResponses st' =
        VerifyHeaderResponses st @ (\<lparr>respID = reqID, respHash = Hash header, respErr = None\<rparr> # news)
      \<and> (\<forall>r \<in> set (\<lparr>respID = reqID, respHash = Hash header, respErr = None\<rparr> # news). respID r = reqID)"
      by (simp add: sendResponse_def)
    with f show ?thesis by (metis pending_sendResponse)
  next
    case None
    from "3.prems" None obtain kps ptv areq where
      r: "requestParentHeaders srv (Cache st) reqID header reqHeaders = Some (Inr (kps, ptv, areq))"
      by (auto split: option.splits sum.splits)
    obtain err st1 where v: "verifyByRequest srv reqID header seal ptv kps st = (err, st1)"
      by (cases "verifyByRequest srv reqID header seal ptv kps st")
    let ?reqs = "case areq of None \<Rightarrow> ancestorsReqs | Some r \<Rightarrow> ancestorsReqs @ [r]"
    let ?st2 = "if err = Some errNotAllParents
                then addVerifyHeaderRequest reqID header seal deadline kps ptv st1 else st1"
    from "3.prems" None r v
    have l: "verifyHeaders srv reqID deadline reqHeaders rest ?reqs ?st2 = Some (Inr (b, reqs', st'))"
      by (simp add: Let_def)
    from "3.IH"(1) [OF None r refl refl refl refl refl v [symmetric] refl l] obtain news where
      n: "VerifyHeaderResponses st' = VerifyHeaderResponses ?st2 @ news"
         "\<forall>r \<in> set news. respID r = reqID"
      and f: "\<forall>i n. i \<noteq> reqID \<longrightarrow> pending st' i n = pending ?st2 i n" by blast
    from verifyByRequest_responses [of srv reqID header seal ptv kps st] v obtain new1 where
      n1: "VerifyHeaderResponses st1 = VerifyHeaderResponses st @ new1"
          "\<forall>r \<in> set new1. respID r = reqID" by auto
    have f1: "i \<noteq> reqID \<Longrightarrow> pending st1 i n = pending st i n" for i n
      using verifyByRequest_frame [of i reqID n header srv seal ptv kps st] v by simp
    have f2: "i \<noteq> reqID \<Longrightarrow> pending ?st2 i n = pending st i n" for i n
      using f1 by (simp add: pending_addVerifyHeaderRequest)
    have "VerifyHeaderResponses st' = VerifyHeaderResponses st @ (new1 @ news)
        \<and> (\<forall>r \<in> set (new1 @ news). respID r = reqID)"
      using n n1 by auto
    with f f2 show ?thesis by (metis (no_types, lifting))
  qed
qed

lemma onVerifyHeaderRequest_other:
  assumes "onVerifyHeaderRequest srv now req st = Some (Inr st')"
  shows "(\<exists>news. VerifyHeaderResponses st' = VerifyHeaderResponses st @ news
            \<and> (\<forall>r \<in> set news. respID r = vID req))
       \<and> (\<forall>i n. i \<noteq> vID req \<longrightarrow> pending st' i n = pending st i n)"
proof (cases "vHeaders req = []")
  case True
  with assms have "st' = sendResponse (vID req) 0 (Some errEmptyHeader) st"
    by (simp add: onVerifyHeaderRequest_def)
  then show ?thesis by (simp add: sendResponse_def pending_def)
next
  case False
  let ?deadline = "case vDeadline req of None \<Rightarrow> now + ttl | Some t \<Rightarrow> t"
  let ?sorted = "sort_key headerNumber (zip (vHeaders req) (vSeal req))"
  let ?reqHeaders = "List.map_filter fst ?sorted"
  from assms False obtain b reqs' st1 where
    l: "verifyHeaders srv (vID req) ?deadline ?reqHeaders ?sorted [] st = Some (Inr (b, reqs', st1))"
    and p: "pending st' = pending st1"
    and r: "VerifyHeaderResponses st' = VerifyHeaderResponses st1"
    by (auto simp: onVerifyHeaderRequest_def Let_def pending_def fun_eq_iff
             split: if_splits option.splits sum.splits bool.splits prod.splits)
  from verifyHeaders_other [OF l] p r show ?thesis by simp
qed

lemma eventLoop_absent:
  assumes "wfRegistry (ProcessingRequests st)"
    and "map_of (ProcessingRequests st) j = None"
    and "noBatchFor j evs"
    and "eventLoop srv evs st = Some (Inr st')"
  shows "map_of (ProcessingRequests st') j = None
       \<and> (\<exists>news. VerifyHeaderResponses st' = VerifyHeaderResponses st @ news
             \<and> filter (\<lambda>r. respID r = j) news = failureNotices j evs)"
  using assms
proof (induction srv evs st rule: eventLoop.induct)
  case (1 srv st)
  then show ?case by simp
next
  case (2 srv now req evs st)
  from "2.prems"(4) obtain st1 where
    h: "onVerifyHeaderRequest srv now req st = Some (Inr st1)"
    and l: "eventLoop srv evs st1 = Some (Inr st')"
    by (auto split: option.splits sum.splits)
  from "2.prems"(3) have ne: "vID req \<noteq> j" and nb: "noBatchFor j evs" by simp_all
  from wfRegistry_onVerifyHeaderRequest [OF "2.prems"(1) h] have wf1: "wfRegistry (ProcessingRequests st1)" .
  from onVerifyHeaderRequest_other [OF h] obtain new1 where
    r1: "VerifyHeaderResponses st1 = VerifyHeaderResponses st @ new1"
    and i1: "\<forall>r \<in> set new1. respID r = vID req"
    and f1: "\<forall>i n. i \<noteq> vID req \<longrightarrow> pending st1 i n = pending st i n" by blast
  have "\<forall>n. pending st1 j n = None"
    using f1 ne "2.prems"(2) by (simp add: pending_def)
  then have ab1: "map_of (ProcessingRequests st1) j = None" using absent_iff [OF wf1] by simp
  have fl: "filter (\<lambda>r. respID r = j) new1 = []" using i1 ne by (auto simp: filter_empty_conv)
  from "2.IH" [OF h refl wf1 ab1 nb l] r1 fl show ?case by auto
next
  case (3 srv now parentResp evs st)
  from "3.prems"(4) obtain st1 where
    h: "onHeaderResponse srv parentResp st = Inr st1"
    and l: "eventLoop srv evs st1 = Some (Inr st')"
    by (auto split: sum.splits)
  from wfRegistry_onHeaderResponse [OF "3.prems"(1) h] have wf1: "wfRegistry (ProcessingRequests st1)" .
  note ab1 = onHeaderResponse_absent(1) [OF "3.prems"(1,2) h]
  from onHeaderResponse_absent(2) [OF "3.prems"(1,2) h, of now] obtain new1 where
    r1: "VerifyHeaderResponses st1 = VerifyHeaderResponses st @ new1"
    and fl: "filter (\<lambda>r. respID r = j) new1 = failureNotices j [(now, HeaderResponses parentResp)]"
    by blast
  from "3.prems"(3) have nb: "noBatchFor j evs" by simp
  from "3.IH" [OF h wf1 ab1 nb l] obtain news where
    "map_of (ProcessingRequests st') j = None"
    "VerifyHeaderResponses st' = VerifyHeaderResponses st1 @ news"
    "filter (\<lambda>r. respID r = j) news = failureNotices j evs" by blast
  with r1 fl show ?case
    by (intro conjI exI [of _ "new1 @ news"]) (auto split: option.splits)
next
  case (4 srv now evs st)
  from wfRegistry_cleanup [OF "4.prems"(1)] have wf1: "wfRegistry (ProcessingRequests (cleanup now st))" .
  note c = cleanup_absent [OF "4.prems"(2), of now]
  from "4.prems"(3) have nb: "noBatchFor j evs" by simp
  from "4.prems"(4) have l: "eventLoop srv evs (cleanup now st) = Some (Inr st')" by simp
  from "4.IH" [OF wf1 c(1) nb l] c(2,3) show ?case by auto
next
  case (5 srv now evs st)
  from wfRegistry_onFinishedRequest [OF "5.prems"(1)]
  have wf1: "wfRegistry (ProcessingRequests (onFinishedRequest st))" .
  note c = onFinishedRequest_absent [OF "5.prems"(2)]
  from "5.prems"(3) have nb: "noBatchFor j evs" by simp
  from "5.prems"(4) have l: "eventLoop srv evs (onFinishedRequest st) = Some (Inr st')" by simp
  from "5.IH" [OF wf1 c(1) nb l] c(2) show ?case by auto
qed

lemma eventLoop_returns:
  assumes "wfRegistry (ProcessingRequests st)" and "noBatch evs"
  shows "\<exists>st'. eventLoop srv evs st = Some (Inr st')"
  using assms
proof (induction srv evs st rule: eventLoop.induct)
  case (1 srv st)
  then show ?case by simp
next
  case (2 srv now req evs st)
  then show ?case by simp
next
  case (3 srv now parentResp evs st)
  from onHeaderResponse_returns [OF "3.prems"(1), of srv parentResp] obtain st1 where
    h: "onHeaderResponse srv parentResp st = Inr st1" by blast
  from wfRegistry_onHeaderResponse [OF "3.prems"(1) h] have wf1: "wfRegistry (ProcessingRequests st1)" .
  from "3.prems"(2) have nb: "noBatch evs" by simp
  from "3.IH" [OF h wf1 nb] h show ?case by simp
next
  case (4 srv now evs st)
  from wfRegistry_cleanup [OF "4.prems"(1)] have wf1: "wfRegistry (ProcessingRequests (cleanup now st))" .
  from "4.prems"(2) have nb: "noBatch evs" by simp
  from "4.IH" [OF wf1 nb] show ?case by simp
next
  case (5 srv now evs st)
  from wfRegistry_onFinishedRequest [OF "5.prems"(1)]
  have wf1: "wfRegistry (ProcessingRequests (onFinishedRequest st))" .
  from "5.prems"(2) have nb: "noBatch evs" by simp
  from "5.IH" [OF wf1 nb] show ?case by simp
qed

text \<open>
  C6. The claim: the sweep resolves a pending entry whose deadline has passed with a
  timeout and drops the entries of its request id, and afterwards no fetch result for
  that request id resolves it a second time. The branch of the event loop for a failed
  fetch sends a result with the request id, the hash and the error of the fetch result
  before it looks at the registry. In the run below block 10 (hash 110) is pending
  under request id 1 with deadline 5; the sweep at time 50 sends its timeout; the
  failed fetch result for request id 1 and hash 110 at time 51 sends a second result
  for request id 1 and hash 110. In the second run a batch brings block 10 again under
  request id 1 after the sweep: the registry is keyed by request id and block number,
  the batch files a new entry, and the fetch result at time 52 resolves it, a second
  result for request id 1 and hash 110.
\<close>

theorem C6_failed_fetch_after_timeout_counterexample:
  "eventLoop (engine needs1 None)
     [(0, VerifyHeaderRequests (batch 1 [10] 5)),
      (50, CleanupTicker),
      (51, HeaderResponses (failedFetch 1 110 (External 3)))] emptyState
   = Some (Inr
       \<lparr>Cache = [], ProcessingRequests = [],
        VerifyHeaderResponses =
          [\<lparr>respID = 1, respHash = 110, respErr = Some errTimeout\<rparr>,
           \<lparr>respID = 1, respHash = 110, respErr = Some (External 3)\<rparr>],
        HeadersRequests =
          [\<lparr>hrID = 1, HighestHash = 109, HighestBlockNumber = 9, hrNumber = 1\<rparr>],
        Logged = [], CleanupCh = [], CleanupChCap = 1\<rparr>)
   \<and> eventLoop (engine needs1 None)
     [(0, VerifyHeaderRequests (batch 1 [10] 5)),
      (50, CleanupTicker),
      (51, VerifyHeaderRequests (batch 1 [10] 1000)),
      (52, HeaderResponses (fetched 1 [9]))] emptyState
   = Some (Inr
       \<lparr>Cache = [chainHeader 10, chainHeader 9],
        ProcessingRequests =
          [(1, [(10, \<lparr>ID = 1, Header = chainHeader 10, Seal = True, Deadline = 1000,
                       KnownParents = [chainHeader 9], ParentsExpected = 1,
                       From = 9, To = 9\<rparr>)])],
        VerifyHeaderResponses =
          [\<lparr>respID = 1, respHash = 110, respErr = Some errTimeout\<rparr>,
           \<lparr>respID = 1, respHash = 110, respErr = None\<rparr>],
        HeadersRequests =
          [\<lparr>hrID = 1, HighestHash = 109, HighestBlockNumber = 9, hrNumber = 1\<rparr>,
           \<lparr>hrID = 1, HighestHash = 109, HighestBlockNumber = 9, hrNumber = 1\<rparr>],
        Logged = [], CleanupCh = [\<lparr>ReqID = 1, BlockNumber = 10\<rparr>], CleanupChCap = 1\<rparr>)"
proof -
  have a1: "eventLoop (engine needs1 None)
     [(0, VerifyHeaderRequests (batch 1 [10] 5)),
      (50, CleanupTicker),
      (51, HeaderResponses (failedFetch 1 110 (External 3)))] emptyState
   = Some (Inr
       \<lparr>Cache = [], ProcessingRequests = [],
        VerifyHeaderResponses =
          [\<lparr>respID = 1, respHash = 110, respErr = Some errTimeout\<rparr>,
           \<lparr>respID = 1, respHash = 110, respErr = Some (External 3)\<rparr>],
        HeadersRequests =
          [\<lparr>hrID = 1, HighestHash = 109, HighestBlockNumber = 9, hrNumber = 1\<rparr>],
        Logged = [], CleanupCh = [], CleanupChCap = 1\<rparr>)"
    by code_simp
  have a2: "eventLoop (engine needs1 None)
     [(0, VerifyHeaderRequests (batch 1 [10] 5)),
      (50, CleanupTicker),
      (51, VerifyHeaderRequests (batch 1 [10] 1000)),
      (52, HeaderResponses (fetched 1 [9]))] emptyState
   = Some (Inr
       \<lparr>Cache = [chainHeader 10, chainHeader 9],
        ProcessingRequests =
          [(1, [(10, \<lparr>ID = 1, Header = chainHeader 10, Seal = True, Deadline = 1000,
                       KnownParents = [chainHeader 9], ParentsExpected = 1,
                       From = 9, To = 9\<rparr>)])],
        VerifyHeaderResponses =
          [\<lparr>respID = 1, respHash = 110, respErr = Some errTimeout\<rparr>,
           \<lparr>respID = 1, respHash = 110, respErr = None\<rparr>],
        HeadersRequests =
          [\<lparr>hrID = 1, HighestHash = 109, HighestBlockNumber = 9, hrNumber = 1\<rparr>,
           \<lparr>hrID = 1, HighestHash = 109, HighestBlockNumber = 9, hrNumber = 1\<rparr>],
        Logged = [], CleanupCh = [\<lparr>ReqID = 1, BlockNumber = 10\<rparr>], CleanupChCap = 1\<rparr>)"
    by code_simp
  from a1 a2 show ?thesis by (intro conjI)
qed

text \<open>
  C6, as amended. A pending entry whose deadline has passed when the sweep runs gets a
  timeout result from the sweep, and the sweep leaves no entry of its request id in the
  registry. Afterwards, in every run that holds no batch with this request id (fetch
  results, batches of other request ids, sweeps and removals, in any order): the
  registry never holds an entry of the request id again, a fetch result without error
  sends nothing with the request id, and the results sent with the request id are the
  failure notices of the failed fetch results for it, one each, in their order, with
  the hash and the error of the fetch result. A run without batches does not fail.
\<close>

theorem C6_after_timeout_only_failure_notices:
  assumes "wfRegistry (ProcessingRequests st)"
    and "pending st reqID n = Some req" and "Deadline req < now"
    and "noBatchFor reqID evs"
  shows "timeoutResponse reqID req
           \<in> set (drop (length (VerifyHeaderResponses st)) (VerifyHeaderResponses (cleanup now st)))
       \<and> map_of (ProcessingRequests (cleanup now st)) reqID = None
       \<and> (\<forall>st'. eventLoop srv evs (cleanup now st) = Some (Inr st') \<longrightarrow>
             map_of (ProcessingRequests st') reqID = None
           \<and> filter (\<lambda>r. respID r = reqID)
               (drop (length (VerifyHeaderResponses (cleanup now st))) (VerifyHeaderResponses st')) =
               failureNotices reqID evs)
       \<and> (noBatch evs \<longrightarrow> (\<exists>st'. eventLoop srv evs (cleanup now st) = Some (Inr st')))"
proof -
  from pending_Some_lookup [OF assms(2)] obtain reqBlocks where
    l: "map_of (ProcessingRequests st) reqID = Some reqBlocks" and m: "map_of reqBlocks n = Some req"
    by blast
  from l have in1: "(reqID, reqBlocks) \<in> set (ProcessingRequests st)" by (rule map_of_SomeD)
  from m have in2: "(n, req) \<in> set reqBlocks" by (rule map_of_SomeD)
  have gone: "map_of (ProcessingRequests (cleanup now st)) reqID = None"
    using in1 hasExpired_member [OF in2 assms(3)] by (rule cleanup_removes_request)
  have sent: "timeoutResponse reqID req
           \<in> set (drop (length (VerifyHeaderResponses st)) (VerifyHeaderResponses (cleanup now st)))"
    using sweepResponses_member [OF in1 expiredResponses_member [OF in2 assms(3)]]
    by (simp add: cleanup_def cleanupLoop_responses)
  from wfRegistry_cleanup [OF assms(1)] have wf1: "wfRegistry (ProcessingRequests (cleanup now st))" .
  have after: "\<forall>st'. eventLoop srv evs (cleanup now st) = Some (Inr st') \<longrightarrow>
             map_of (ProcessingRequests st') reqID = None
           \<and> filter (\<lambda>r. respID r = reqID)
               (drop (length (VerifyHeaderResponses (cleanup now st))) (VerifyHeaderResponses st')) =
               failureNotices reqID evs"
  proof (intro allI impI)
    fix st' assume r: "eventLoop srv evs (cleanup now st) = Some (Inr st')"
    from eventLoop_absent [OF wf1 gone assms(4) r] obtain news where
      "map_of (ProcessingRequests st') reqID = None"
      "VerifyHeaderResponses st' = VerifyHeaderResponses (cleanup now st) @ news"
      "filter (\<lambda>r. respID r = reqID) news = failureNotices reqID evs" by blast
    then show "map_of (ProcessingRequests st') reqID = None
           \<and> filter (\<lambda>r. respID r = reqID)
               (drop (length (VerifyHeaderResponses (cleanup now st))) (VerifyHeaderResponses st')) =
               failureNotices reqID evs"
      by simp
  qed
  have total: "noBatch evs \<longrightarrow> (\<exists>st'. eventLoop srv evs (cleanup now st) = Some (Inr st'))"
    using eventLoop_returns [OF wf1] by blast
  from sent gone after total show ?thesis by blast
qed

theorem C6_after_timeout_only_failure_notices_witness:
  "timeoutResponse 1 (pendingEntry 1 10 5)
     \<in> set (drop (length (VerifyHeaderResponses mixedDeadlines))
              (VerifyHeaderResponses (cleanup 50 mixedDeadlines)))
   \<and> map_of (ProcessingRequests (cleanup 50 mixedDeadlines)) 1 = None
   \<and> eventLoop (engine needs1 None)
       [(51, HeaderResponses (fetched 1 [9])),
        (52, HeaderResponses (failedFetch 1 109 (External 3))),
        (53, CleanupTicker),
        (54, FinishedRequests),
        (55, HeaderResponses (fetched 1 [9]))] (cleanup 50 mixedDeadlines)
     = Some (Inr
         \<lparr>Cache = [], ProcessingRequests = [],
          VerifyHeaderResponses =
            [\<lparr>respID = 1, respHash = 110, respErr = Some errTimeout\<rparr>,
             \<lparr>respID = 1, respHash = 109, respErr = Some (External 3)\<rparr>],
          HeadersRequests = [], Logged = [], CleanupCh = [], CleanupChCap = 1\<rparr>)
   \<and> failureNotices 1
       [(51, HeaderResponses (fetched 1 [9])),
        (52, HeaderResponses (failedFetch 1 109 (External 3))),
        (53, CleanupTicker),
        (54, FinishedRequests),
        (55, HeaderResponses (fetched 1 [9]))] =
       [\<lparr>respID = 1, respHash = 109, respErr = Some (External 3)\<rparr>]"
proof -
  let ?evs = "[(51, HeaderResponses (fetched 1 [9])),
        (52, HeaderResponses (failedFetch 1 109 (External 3))),
        (53, CleanupTicker),
        (54, FinishedRequests),
        (55, HeaderResponses (fetched 1 [9]))]"
  have h1: "wfRegistry (ProcessingRequests mixedDeadlines)"
    by (simp add: mixedDeadlines_def emptyState_def wfRegistry_def wfBlocks_def pendingEntry_def
          toVerifyRequest_def chainHeader_def)
  have h2: "pending mixedDeadlines 1 10 = Some (pendingEntry 1 10 5)"
    by (simp add: pending_def mixedDeadlines_def emptyState_def)
  have h3: "Deadline (pendingEntry 1 10 5) < 50"
    by (simp add: pendingEntry_def toVerifyRequest_def)
  have h4: "noBatchFor 1 ?evs" by simp
  have e: "eventLoop (engine needs1 None) ?evs (cleanup 50 mixedDeadlines)
     = Some (Inr
         \<lparr>Cache = [], ProcessingRequests = [],
          VerifyHeaderResponses =
            [\<lparr>respID = 1, respHash = 110, respErr = Some errTimeout\<rparr>,
             \<lparr>respID = 1, respHash = 109, respErr = Some (External 3)\<rparr>],
          HeadersRequests = [], Logged = [], CleanupCh = [], CleanupChCap = 1\<rparr>)"
    by code_simp
  have f: "failureNotices 1 ?evs = [\<lparr>respID = 1, respHash = 109, respErr = Some (External 3)\<rparr>]"
    by (simp add: fetched_def failedFetch_def)
  from C6_after_timeout_only_failure_notices [OF h1 h2 h3 h4, of "engine needs1 None"] e f
  show ?thesis by simp
qed

subsection \<open>How many parents to fetch, and from where\<close>

lemma sint_of_nat_small:
  assumes "m < 2 ^ 63"
  shows "sint (of_nat m :: u64) = int m"
proof -
  have "sint (of_nat m :: u64) = sint (word_of_int (int m) :: u64)" by simp
  also have "\<dots> = signed_take_bit 63 (int m)" by (simp only: sint_sbintrunc') simp
  also have "\<dots> = int m"
    using assms by (intro signed_take_bit_int_eq_self) auto
  finally show ?thesis .
qed

lemma unat_of_pos:
  assumes "0 <s (k :: u64)"
  shows "int (unat k) = sint k" and "unat k < 2 ^ 63"
proof -
  from assms have pos: "0 < sint k" by (simp add: word_sless_alt)
  have lt: "sint k < 2 ^ 63" using sint_lt [of k] by simp
  have "uint k = take_bit 64 (sint k)" using uint_sint [of k] by simp
  also have "\<dots> = sint k"
    using pos lt by (intro take_bit_int_eq_self) auto
  finally have u: "uint k = sint k" .
  then show "int (unat k) = sint k" by simp
  from u lt have "uint k < 2 ^ 63" by simp
  then show "unat k < 2 ^ 63" by (simp add: unat_eq_nat_uint nat_less_iff del: nat_uint_eq)
qed

lemma parentsToAsk_in_range:
  assumes "from < n" and "n \<le> to" and "unat from + unat k < 2 ^ 64"
  shows "parentsToAsk k n from to =
           (if unat from + unat k \<le> unat n then 0 else of_nat (unat from + unat k - unat n))"
proof -
  have s: "unat (from + k) = unat from + unat k"
    using assms(3) by (simp add: unat_add_lem [THEN iffD1])
  have c: "(from + k \<le> n) = (unat from + unat k \<le> unat n)"
    by (simp add: word_le_nat_alt s)
  have e: "\<not> unat from + unat k \<le> unat n \<Longrightarrow>
             from - (n - k) = of_nat (unat from + unat k - unat n)"
  proof -
    assume "\<not> unat from + unat k \<le> unat n"
    then have "of_nat (unat from + unat k - unat n) = (of_nat (unat from + unat k) - of_nat (unat n) :: u64)"
      by (simp add: of_nat_diff)
    then show ?thesis by simp
  qed
  show ?thesis using assms(1,2) c e by (simp add: parentsToAsk_def)
qed


lemma makeslice_capacity:
  "highestBlock - (if highestBlock > parentsToGet - 1 then highestBlock - parentsToGet + 1 else 0) =
     min highestBlock (parentsToGet - (1 :: u64))"
  by (auto simp: min_def)

lemma requestHeadersNotFromRange_panics:
  "(requestHeadersNotFromRange cache reqID highestBlock highestKnown parentsToGet =
      Some (Inl MakeSliceCap)) =
   (maxSliceCap < min highestBlock (parentsToGet - 1))"
  by (simp add: requestHeadersNotFromRange_def Let_def makeslice_capacity
           split: option.split prod.split)

lemma requestHeadersNotFromRange_request:
  "requestHeadersNotFromRange cache reqID highestBlock highestKnown parentsToGet =
     Some (Inr (known, req)) \<Longrightarrow>
   hrID req = reqID \<and> hrNumber req = parentsToGet - of_nat (length known)"
  by (auto simp: requestHeadersNotFromRange_def Let_def split: if_splits option.splits prod.splits)

text \<open>
  C3. The claim: for a header of block \<open>n\<close> inside a batch from \<open>from\<close> to \<open>to\<close>
  (\<open>from < n \<le> to\<close>) that needs \<open>k > 0\<close> parents, nothing is fetched when
  \<open>n - k \<ge> from\<close>, and otherwise \<open>from - (n - k)\<close> parents are fetched, starting at block
  \<open>from - 1\<close> with the parent hash of the first header of the batch. The code computes in
  64 bits. First, it tests \<^verbatim>\<open>n >= from + uint64(k)\<close>: when \<open>from + k\<close> wraps around, the
  test succeeds though \<open>n - k < from\<close>. With the two highest block numbers and two
  parents needed, the claim asks for one header from block \<open>from - 1\<close>; the code sets
  \<^verbatim>\<open>parentsToAsk\<close> to 0, keeps the header's own number as the origin, and panics in
  \<^verbatim>\<open>make\<close>, whose capacity is then that number. Second, for a batch that starts at block
  0 the origin \<^verbatim>\<open>from - 1\<close> is the block number \<open>2 ^ 64 - 1\<close>: with blocks 0 and 1 and two
  parents needed for block 1, the request asks for one header from block
  18446744073709551615.
\<close>

theorem C3_wrap_around_counterexample:
  "Number (hd topHeaders) < Number (last topHeaders)
   \<and> 0 <s needs2 (Number (last topHeaders))
   \<and> \<not> int (unat (Number (hd topHeaders)))
          \<le> int (unat (Number (last topHeaders))) - sint (needs2 (Number (last topHeaders)))
   \<and> parentsToAsk (needs2 (Number (last topHeaders))) (Number (last topHeaders))
        (Number (hd topHeaders)) (Number (last topHeaders)) = 0
   \<and> requestParentHeaders (engine needs2 None) [] 1 (last topHeaders) topHeaders =
       Some (Inl MakeSliceCap)
   \<and> Number (hd [chainHeader 0, chainHeader 1]) = 0
   \<and> Number (chainHeader 1) = 1
   \<and> requestParentHeaders (engine needs2 None) [] 1 (chainHeader 1) [chainHeader 0, chainHeader 1] =
       Some (Inr ([chainHeader 0], 2,
                  Some \<lparr>hrID = 1, HighestHash = 99, HighestBlockNumber = 18446744073709551615,
                        hrNumber = 1\<rparr>))"
proof -
  have a1: "Number (hd topHeaders) < Number (last topHeaders)"
    by (simp add: topHeaders_def)
  have a2: "0 <s needs2 (Number (last topHeaders))"
    by (simp add: needs2_def word_sless_alt)
  have a3: "\<not> int (unat (Number (hd topHeaders)))
          \<le> int (unat (Number (last topHeaders))) - sint (needs2 (Number (last topHeaders)))"
    by (simp add: topHeaders_def needs2_def)
  have a4: "parentsToAsk (needs2 (Number (last topHeaders))) (Number (last topHeaders))
        (Number (hd topHeaders)) (Number (last topHeaders)) = 0"
    by (simp add: topHeaders_def needs2_def parentsToAsk_def)
  have a5: "requestParentHeaders (engine needs2 None) [] 1 (last topHeaders) topHeaders =
       Some (Inl MakeSliceCap)"
    by code_simp
  have a6: "Number (hd [chainHeader 0, chainHeader 1]) = 0" "Number (chainHeader 1) = 1"
    by (simp_all add: chainHeader_def)
  have a7: "requestParentHeaders (engine needs2 None) [] 1 (chainHeader 1) [chainHeader 0, chainHeader 1] =
       Some (Inr ([chainHeader 0], 2,
                  Some \<lparr>hrID = 1, HighestHash = 99, HighestBlockNumber = 18446744073709551615,
                        hrNumber = 1\<rparr>))"
    by code_simp
  from a1 a2 a3 a4 a5 a6 a7 show ?thesis by (intro conjI)
qed

text \<open>
  C3, as amended: the same, for the batches that start above block 0 and in which
  \<open>from + k\<close> does not exceed the 64 bit range. The count is the variable
  \<^verbatim>\<open>parentsToAsk\<close> and the origin is the pair \<^verbatim>\<open>headerNumber\<close>, \<^verbatim>\<open>headerParentHash\<close>:
  when \<open>n - k \<ge> from\<close> the count is 0 and the origin is the header's own number and
  parent hash; otherwise the count is \<open>from - (n - k)\<close> and the origin is block
  \<open>from - 1\<close> with the parent hash of the first header of the batch.
  \<^verbatim>\<open>requestParentHeaders\<close> hands both to \<^verbatim>\<open>requestHeadersNotFromRange\<close> and takes the
  other \<open>k - parentsToAsk\<close> parents from the batch. That call panics in \<^verbatim>\<open>make\<close> exactly
  when the capacity is above \<open>maxSliceCap\<close>: the capacity is \<open>n\<close> in the first case and
  the smaller of \<open>from - 1\<close> and the count less one in the second. When it returns, the
  request it returns has the request id of the batch and asks for the count less the
  number of parents that the walk found in the cache.
\<close>

theorem C3_fetch_count_and_origin:
  assumes "reqHeaders \<noteq> []"
    and "NeededForVerification srv header = k" and "0 <s k"
    and "Number header = n" and "Number (hd reqHeaders) = from" and "Number (last reqHeaders) = to"
    and "from < n" and "n \<le> to"
    and "unat from + unat k < 2 ^ 64"
    and "0 < from"
  shows "(if int (unat from) \<le> int (unat n) - sint k
          then parentsToAsk k n from to = 0
             \<and> fetchOrigin (parentsToAsk k n from to) header reqHeaders = (n, ParentHash header)
             \<and> (requestHeadersNotFromRange cache reqID n (ParentHash header) 0 =
                  Some (Inl MakeSliceCap)) = (maxSliceCap < n)
          else sint (parentsToAsk k n from to) = int (unat from) - (int (unat n) - sint k)
             \<and> fetchOrigin (parentsToAsk k n from to) header reqHeaders =
                 (from - 1, ParentHash (hd reqHeaders))
             \<and> int (unat (from - 1)) = int (unat from) - 1
             \<and> (requestHeadersNotFromRange cache reqID (from - 1) (ParentHash (hd reqHeaders))
                    (parentsToAsk k n from to) = Some (Inl MakeSliceCap)) =
                 (maxSliceCap < min (from - 1) (parentsToAsk k n from to - 1)))
       \<and> requestParentHeaders srv cache reqID header reqHeaders =
           (case requestHeadersNotFromRange cache reqID
                   (fst (fetchOrigin (parentsToAsk k n from to) header reqHeaders))
                   (snd (fetchOrigin (parentsToAsk k n from to) header reqHeaders))
                   (parentsToAsk k n from to) of
              None \<Rightarrow> None
            | Some (Inl p) \<Rightarrow> Some (Inl p)
            | Some (Inr (knownParents, ancestorsReq)) \<Rightarrow>
                (case checkHeadersFromRange header reqHeaders (parentsToAsk k n from to) k of
                   Inl p \<Rightarrow> Some (Inl p)
                 | Inr knownParentsFromRange \<Rightarrow>
                     Some (Inr (knownParents @ knownParentsFromRange, k, Some ancestorsReq))))
       \<and> (\<forall>known req.
             requestHeadersNotFromRange cache reqID
               (fst (fetchOrigin (parentsToAsk k n from to) header reqHeaders))
               (snd (fetchOrigin (parentsToAsk k n from to) header reqHeaders))
               (parentsToAsk k n from to) = Some (Inr (known, req)) \<longrightarrow>
             hrID req = reqID \<and> hrNumber req = parentsToAsk k n from to - of_nat (length known))"
proof -
  note kp = unat_of_pos [OF assms(3)]
  have k0: "k \<noteq> 0" using assms(3) by auto
  have lt: "unat from < unat n" using assms(7) by (simp add: word_less_nat_alt)
  have p: "parentsToAsk k n from to =
           (if unat from + unat k \<le> unat n then 0 else of_nat (unat from + unat k - unat n))"
    using assms(7,8,9) by (rule parentsToAsk_in_range)
  have c: "(int (unat from) \<le> int (unat n) - sint k) = (unat from + unat k \<le> unat n)"
    using kp(1) by linarith
  have f1: "int (unat (from - 1)) = int (unat from) - 1"
  proof -
    from assms(10) have "1 \<le> from" by (simp add: word_le_nat_alt word_less_nat_alt)
    then have "unat (from - 1) = unat from - 1" by (simp add: unat_sub)
    moreover from assms(10) have "0 < unat from" by (simp add: word_less_nat_alt)
    ultimately show ?thesis by simp
  qed
  have first: "if int (unat from) \<le> int (unat n) - sint k
          then parentsToAsk k n from to = 0
             \<and> fetchOrigin (parentsToAsk k n from to) header reqHeaders = (n, ParentHash header)
             \<and> (requestHeadersNotFromRange cache reqID n (ParentHash header) 0 =
                  Some (Inl MakeSliceCap)) = (maxSliceCap < n)
          else sint (parentsToAsk k n from to) = int (unat from) - (int (unat n) - sint k)
             \<and> fetchOrigin (parentsToAsk k n from to) header reqHeaders =
                 (from - 1, ParentHash (hd reqHeaders))
             \<and> int (unat (from - 1)) = int (unat from) - 1
             \<and> (requestHeadersNotFromRange cache reqID (from - 1) (ParentHash (hd reqHeaders))
                    (parentsToAsk k n from to) = Some (Inl MakeSliceCap)) =
                 (maxSliceCap < min (from - 1) (parentsToAsk k n from to - 1))"
  proof (cases "unat from + unat k \<le> unat n")
    case True
    have "min n (0 - 1 :: u64) = n" by (simp add: min_def)
    then show ?thesis using True p c assms(4)
      by (simp add: fetchOrigin_def requestHeadersNotFromRange_panics)
  next
    case False
    define m where "m = unat from + unat k - unat n"
    have m: "m < 2 ^ 63" "0 < m" using False lt kp(2) by (auto simp: m_def)
    have s: "sint (of_nat m :: u64) = int m" using m(1) by (rule sint_of_nat_small)
    have pos: "0 <s (of_nat m :: u64)" unfolding word_sless_alt using s m(2) by simp
    have v: "int m = int (unat from) - (int (unat n) - sint k)"
      using False kp(1) by (simp add: m_def)
    have pm: "parentsToAsk k n from to = of_nat m" using p False by (simp add: m_def)
    have "\<not> int (unat from) \<le> int (unat n) - sint k" using c False by simp
    then show ?thesis using s pos v assms(5) f1
      by (simp add: pm fetchOrigin_def requestHeadersNotFromRange_panics)
  qed
  have second: "requestParentHeaders srv cache reqID header reqHeaders =
           (case requestHeadersNotFromRange cache reqID
                   (fst (fetchOrigin (parentsToAsk k n from to) header reqHeaders))
                   (snd (fetchOrigin (parentsToAsk k n from to) header reqHeaders))
                   (parentsToAsk k n from to) of
              None \<Rightarrow> None
            | Some (Inl p) \<Rightarrow> Some (Inl p)
            | Some (Inr (knownParents, ancestorsReq)) \<Rightarrow>
                (case checkHeadersFromRange header reqHeaders (parentsToAsk k n from to) k of
                   Inl p \<Rightarrow> Some (Inl p)
                 | Inr knownParentsFromRange \<Rightarrow>
                     Some (Inr (knownParents @ knownParentsFromRange, k, Some ancestorsReq))))"
    using assms(1,2,4,5,6) k0
    by (simp add: requestParentHeaders_def Let_def split: prod.split)
  have third: "\<forall>known req.
             requestHeadersNotFromRange cache reqID
               (fst (fetchOrigin (parentsToAsk k n from to) header reqHeaders))
               (snd (fetchOrigin (parentsToAsk k n from to) header reqHeaders))
               (parentsToAsk k n from to) = Some (Inr (known, req)) \<longrightarrow>
             hrID req = reqID \<and> hrNumber req = parentsToAsk k n from to - of_nat (length known)"
    using requestHeadersNotFromRange_request by blast
  from first second third show ?thesis by (intro conjI)
qed

theorem C3_fetch_count_and_origin_witness:
  "sint (parentsToAsk 3 12 10 12) = 1
   \<and> fetchOrigin (parentsToAsk 3 12 10 12) (chainHeader 12)
        [chainHeader 10, chainHeader 11, chainHeader 12] = (9, 109)
   \<and> requestHeadersNotFromRange [] 1 9 109 1 =
       Some (Inr ([], \<lparr>hrID = 1, HighestHash = 109, HighestBlockNumber = 9, hrNumber = 1\<rparr>))
   \<and> requestParentHeaders (engine needs3At12 None) [] 1 (chainHeader 12)
        [chainHeader 10, chainHeader 11, chainHeader 12] =
       Some (Inr ([chainHeader 10, chainHeader 11], 3,
                  Some \<lparr>hrID = 1, HighestHash = 109, HighestBlockNumber = 9, hrNumber = 1\<rparr>))"
proof -
  have h1: "[chainHeader 10, chainHeader 11, chainHeader 12] \<noteq> []" by simp
  have h2: "NeededForVerification (engine needs3At12 None) (chainHeader 12) = 3"
    by (simp add: engine_def needs3At12_def chainHeader_def)
  have h3: "0 <s (3 :: u64)" by (simp add: word_sless_alt)
  have h4: "Number (chainHeader 12) = 12" by (simp add: chainHeader_def)
  have h5: "Number (hd [chainHeader 10, chainHeader 11, chainHeader 12]) = 10"
    by (simp add: chainHeader_def)
  have h6: "Number (last [chainHeader 10, chainHeader 11, chainHeader 12]) = 12"
    by (simp add: chainHeader_def)
  have h7: "(10 :: u64) < 12" by simp
  have h8: "(12 :: u64) \<le> 12" by simp
  have h9: "unat (10 :: u64) + unat (3 :: u64) < 2 ^ 64" by simp
  have h10: "(0 :: u64) < 10" by simp
  have r: "requestHeadersNotFromRange [] 1 9 109 1 =
             Some (Inr ([], \<lparr>hrID = 1, HighestHash = 109, HighestBlockNumber = 9, hrNumber = 1\<rparr>))"
    by code_simp
  have c: "checkHeadersFromRange (chainHeader 12) [chainHeader 10, chainHeader 11, chainHeader 12] 1 3 =
             Inr [chainHeader 10, chainHeader 11]"
    by code_simp
  have p: "parentsToAsk 3 12 10 12 = 1" by (simp add: parentsToAsk_def)
  have f: "fetchOrigin 1 (chainHeader 12) [chainHeader 10, chainHeader 11, chainHeader 12] = (9, 109)"
    by (simp add: fetchOrigin_def word_sless_alt chainHeader_def)
  from C3_fetch_count_and_origin [OF h1 h2 h3 h4 h5 h6 h7 h8 h9 h10, of "[]" 1]
  show ?thesis
    by (simp add: p r c f)
qed

subsection \<open>The walk through the cache ends\<close>

text \<open>
  Every header that the walk finds has the block number the walk is at, and the walk
  goes through the block numbers downwards one by one: within \<open>2 ^ 64\<close> steps no header
  of the cache is found twice. A cache of fewer than \<open>2 ^ 64\<close> headers therefore ends the
  walk by a miss, also when the bound \<open>minHeader\<close> is 0.
\<close>

lemma walkCache_window:
  assumes "j \<le> 2 ^ 64"
    and "card {x \<in> set cache. \<exists>i<j. Number x = p - of_nat i} < j"
  shows "walkCache cache minHeader p hk known hph hpn \<noteq> None"
  using assms
proof (induction j arbitrary: p hk known hph hpn)
  case 0
  then show ?case by simp
next
  case (Suc j)
  show ?case
  proof (cases "minHeader \<le> p")
    case False
    then show ?thesis by (subst walkCache.simps) simp
  next
    case True
    show ?thesis
    proof (cases "GetCachedHeader cache hk p")
      case None
      with True show ?thesis by (subst walkCache.simps) simp
    next
      case (Some x)
      then have x: "x \<in> set cache" "Number x = p"
        by (auto simp: GetCachedHeader_def find_Some_iff)
      let ?W = "{y \<in> set cache. \<exists>i<Suc j. Number y = p - of_nat i}"
      let ?V = "{y \<in> set cache. \<exists>i<j. Number y = p - 1 - of_nat i}"
      have fin: "finite ?W" by simp
      have xin: "x \<in> ?W" using x by (auto intro: exI [of _ 0])
      have sub: "?V \<subseteq> ?W - {x}"
      proof
        fix y assume "y \<in> ?V"
        then obtain i where y: "y \<in> set cache" "i < j" "Number y = p - 1 - of_nat i" by auto
        define w :: u64 where "w = of_nat (Suc i)"
        from y(3) have n: "Number y = p - w" by (simp add: w_def)
        have si: "0 < Suc i" "Suc i < 2 ^ LENGTH(64)" using y(2) Suc.prems(1) by simp_all
        have "w \<noteq> 0"
          unfolding w_def using si by (rule of_nat_neq_0)
        have "y \<noteq> x"
        proof
          assume "y = x"
          with n x(2) have "p = p - w" by simp
          then have "w = 0" by simp
          with \<open>w \<noteq> 0\<close> show False by simp
        qed
        moreover have "y \<in> ?W"
        proof -
          have "Suc i < Suc j" using y(2) by simp
          moreover have "Number y = p - of_nat (Suc i)" using n by (simp only: w_def)
          ultimately show ?thesis using y(1) by blast
        qed
        ultimately show "y \<in> ?W - {x}" by simp
      qed
      have "card ?V \<le> card (?W - {x})" using sub fin by (intro card_mono) auto
      also have "\<dots> = card ?W - 1" using xin fin by simp
      also have "\<dots> < j"
      proof -
        have "0 < card ?W" using xin fin by (auto simp: card_gt_0_iff)
        with Suc.prems(2) show ?thesis by linarith
      qed
      finally have c: "card ?V < j" .
      from Suc.prems(1) have j: "j \<le> 2 ^ 64" by simp
      from Suc.IH [OF j c] True Some show ?thesis
        by (subst walkCache.simps) simp
    qed
  qed
qed

lemma walkCache_terminates:
  assumes "length cache < 2 ^ 64"
  shows "walkCache cache minHeader p hk known hph hpn \<noteq> None"
proof -
  have "card {x \<in> set cache. \<exists>i<Suc (length cache). Number x = p - of_nat i} \<le> card (set cache)"
    by (intro card_mono) auto
  also have "\<dots> \<le> length cache" by (rule card_length)
  finally have "card {x \<in> set cache. \<exists>i<Suc (length cache). Number x = p - of_nat i}
                  < Suc (length cache)" by simp
  moreover from assms have "Suc (length cache) \<le> 2 ^ 64" by simp
  ultimately show ?thesis by (rule walkCache_window [rotated])
qed

lemma requestHeadersNotFromRange_returns:
  assumes "length cache < 2 ^ 64"
  shows "requestHeadersNotFromRange cache reqID highestBlock highestKnown parentsToGet \<noteq> None"
proof -
  let ?minHeader = "if highestBlock > parentsToGet - 1 then highestBlock - parentsToGet + 1 else 0"
  from walkCache_terminates [OF assms] obtain r where
    "walkCache cache ?minHeader highestBlock highestKnown [] highestKnown highestBlock = Some r"
    by blast
  then show ?thesis
    by (simp add: requestHeadersNotFromRange_def Let_def split: prod.split)
qed

subsection \<open>A batch within the limits is handled\<close>










subsection \<open>Results and removals, handler by handler\<close>











end
